theory Spec2Isabelle
  imports Main "HOL-Library.Word"
begin

section \<open>Data model (grass/process.h)\<close>

text \<open>
  The process table of the kernel and the operations on it, embedded from
  \<^verbatim>\<open>grass/process.h\<close>, \<^verbatim>\<open>grass/process.c\<close> and \<^verbatim>\<open>grass/kernel.c\<close>.
  C \<^verbatim>\<open>int\<close> fields that are only compared, or incremented under a guard that excludes
  overflow (\<^verbatim>\<open>pid\<close>, \<^verbatim>\<open>queue_level\<close>), are \<^typ>\<open>int\<close>. The \<^verbatim>\<open>int\<close>
  \<^verbatim>\<open>timer_interrupt_count\<close> is incremented with no guard: it is a \<^typ>\<open>32 word\<close>, read
  as a signed number, so that the increment wraps at \<open>INT_MAX\<close> as in the compiled code.
  Every \<^verbatim>\<open>unsigned long long\<close> is a \<^typ>\<open>64 word\<close>, so that \<^verbatim>\<open>+\<close> and \<^verbatim>\<open>-\<close> wrap as
  in C.
\<close>

datatype proc_status =
  PROC_UNUSED | PROC_LOADING | PROC_READY | PROC_RUNNING | PROC_RUNNABLE | PROC_PENDING_SYSCALL

text \<open>
  Modelled from the spec: \<^verbatim>\<open>syscall.h\<close> is not among the sources. The system-call
  record has a type (SYS_SEND or SYS_RECV; \<open>SYS_UNUSED\<close> stands for every other value,
  the \<^verbatim>\<open>default\<close> branch of \<^verbatim>\<open>proc_try_syscall\<close>), a sender pid, a receiver pid, an
  inline payload and a status that is PENDING or DONE.
\<close>

datatype syscall_type = SYS_UNUSED | SYS_RECV | SYS_SEND

datatype syscall_status = PENDING | DONE

record syscall_struct =
  stype :: syscall_type
  sender :: int
  receiver :: int
  content :: "8 word list"
  sstatus :: syscall_status

record process =
  pid :: int
  syscall :: syscall_struct
  status :: proc_status
  mepc :: "32 word"
  saved_registers :: "32 word list"
  creation_time :: "64 word"
  first_schedule_time :: "64 word"
  total_cpu_time :: "64 word"
  termination_time :: "64 word"
  timer_interrupt_count :: "32 word"
  queue_level :: int
  queue_time :: "64 word"
  last_schedule_time :: "64 word"
  wakeup_time :: "64 word"

definition MAX_NPROCESS :: nat where
  "MAX_NPROCESS = 16"

definition MLFQ_LEVELS :: int where
  "MLFQ_LEVELS = 5"

definition MLFQ_NLEVELS :: int where
  "MLFQ_NLEVELS = 5"

definition MLFQ_RESET_PERIOD :: "64 word" where
  "MLFQ_RESET_PERIOD = 10000000"

text \<open>
  The macro \<^verbatim>\<open>MLFQ_LEVEL_RUNTIME(x) (x + 1) * 100000\<close>, applied to \<^verbatim>\<open>p->queue_level\<close>
  and stored in an \<^verbatim>\<open>unsigned long long\<close>.
\<close>

definition MLFQ_LEVEL_RUNTIME :: "int \<Rightarrow> 64 word" where
  "MLFQ_LEVEL_RUNTIME x = word_of_int ((x + 1) * 100000)"

text \<open>
  Constants of \<^verbatim>\<open>egos.h\<close> and \<^verbatim>\<open>syscall.h\<close>, which are not among the sources: they
  are parameters of the model.
\<close>

record egos_consts =
  GPID_ALL :: int
  GPID_SHELL :: int
  GPID_USER_START :: int
  SYSCALL_MSG_LEN :: nat
  APPS_ARG :: "32 word"
  APPS_ENTRY :: "32 word"

text \<open>
  What the kernel asks of the hardware abstraction layer, recorded in the order of the
  calls; \<open>COPY_OUT\<close> is the \<^verbatim>\<open>memcpy\<close> of a system-call record back to user space.
\<close>

datatype hal_event =
  TIMER_RESET nat
  | MMU_SWITCH int
  | MMU_FLUSH_CACHE
  | MMU_FREE int
  | MMU_COPY_OUT int syscall_struct
  | SET_MPP_USER
  | SET_MPP_MACHINE
  | SET_MIE
  | WFI
  | PRINT_TERMINATED int
  | PRINT_KILLED int nat

datatype fatal =
  FATAL_proc_alloc
  | FATAL_unknown_receiver int
  | FATAL_unknown_syscall
  | FATAL_kernel_exception nat
  | FATAL_interrupt nat

text \<open>
  The globals of the two files and the environment. \<open>proc_set\<close> is the array
  \<^verbatim>\<open>proc_set[MAX_NPROCESS + 1]\<close>: only the indices \<open>0..MAX_NPROCESS\<close> are ever read or
  written. \<open>alloc_curr_pid\<close> and \<open>MLFQ_last_reset_time\<close> are the two \<^verbatim>\<open>static\<close> locals.
  \<open>mtime\<close> is the clock as the sequence of values that successive calls of
  \<^verbatim>\<open>mtime_get()\<close> return, and \<open>mtime_reads\<close> counts the calls made so far.
\<close>

record kstate =
  proc_set :: "nat \<Rightarrow> process"
  core_in_kernel :: nat
  core_to_proc_idx :: "nat \<Rightarrow> nat"
  alloc_curr_pid :: "32 word"
  MLFQ_last_reset_time :: "64 word"
  tty_input_empty :: bool
  mtime :: "nat \<Rightarrow> 64 word"
  mtime_reads :: nat
  hal :: "hal_event list"

definition mtime_get :: "kstate \<Rightarrow> 64 word \<times> kstate" where
  "mtime_get s = (mtime s (mtime_reads s), s\<lparr>mtime_reads := Suc (mtime_reads s)\<rparr>)"

definition earth :: "hal_event \<Rightarrow> kstate \<Rightarrow> kstate" where
  "earth e s = s\<lparr>hal := hal s @ [e]\<rparr>"

definition set_proc :: "nat \<Rightarrow> process \<Rightarrow> kstate \<Rightarrow> kstate" where
  "set_proc i p s = s\<lparr>proc_set := (proc_set s)(i := p)\<rparr>"

definition curr_proc_idx :: "kstate \<Rightarrow> nat" where
  "curr_proc_idx s = core_to_proc_idx s (core_in_kernel s)"

definition curr_pid :: "kstate \<Rightarrow> int" where
  "curr_pid s = pid (proc_set s (curr_proc_idx s))"

definition curr_status :: "kstate \<Rightarrow> proc_status" where
  "curr_status s = status (proc_set s (curr_proc_idx s))"

section \<open>Process management (grass/process.c)\<close>

text \<open>
  The loops \<^verbatim>\<open>for (uint i = 0; i < MAX_NPROCESS; i++) if (proc_set[i].pid == pid) {...; return;}\<close>
  act on the first index below \<open>MAX_NPROCESS\<close> whose pid matches, and do nothing when
  there is none.
\<close>

definition find_pid :: "kstate \<Rightarrow> int \<Rightarrow> nat option" where
  "find_pid s p = find (\<lambda>i. pid (proc_set s i) = p) [0..<MAX_NPROCESS]"

definition mlfq_update_level :: "process \<Rightarrow> 64 word \<Rightarrow> process" where
  "mlfq_update_level p runtime =
     (if queue_level p \<ge> MLFQ_NLEVELS - 1 then p
      else
        let p1 = p\<lparr>queue_time := queue_time p + runtime\<rparr>;
            quantum = MLFQ_LEVEL_RUNTIME (queue_level p1)
        in if queue_time p1 \<ge> quantum
           then p1\<lparr>queue_level := queue_level p1 + 1, queue_time := 0\<rparr>
           else p1)"

definition proc_set_status :: "int \<Rightarrow> proc_status \<Rightarrow> kstate \<Rightarrow> kstate" where
  "proc_set_status p st s =
     s\<lparr>proc_set := (\<lambda>i. if i < MAX_NPROCESS \<and> pid (proc_set s i) = p
                          then (proc_set s i)\<lparr>status := st\<rparr> else proc_set s i)\<rparr>"

definition proc_set_ready :: "int \<Rightarrow> kstate \<Rightarrow> kstate" where
  "proc_set_ready p s =
     (case find_pid s p of
        None \<Rightarrow> s
      | Some i \<Rightarrow> set_proc i ((proc_set s i)\<lparr>status := PROC_READY\<rparr>) s)"

definition proc_set_running :: "int \<Rightarrow> kstate \<Rightarrow> kstate" where
  "proc_set_running p s =
     (case find_pid s p of
        None \<Rightarrow> s
      | Some i \<Rightarrow>
          let s1 = (if first_schedule_time (proc_set s i) = 0
                    then (let (t, s') = mtime_get s
                          in set_proc i ((proc_set s' i)\<lparr>first_schedule_time := t\<rparr>) s')
                    else s);
              (t2, s2) = mtime_get s1
          in set_proc i ((proc_set s2 i)\<lparr>last_schedule_time := t2, status := PROC_RUNNING\<rparr>) s2)"

text \<open>
  The block shared by \<^verbatim>\<open>proc_set_runnable\<close> and \<^verbatim>\<open>proc_set_pending\<close>: the CPU time of a
  process that was running is accounted before its status changes.
\<close>

definition account_runtime :: "nat \<Rightarrow> kstate \<Rightarrow> kstate" where
  "account_runtime i s =
     (if status (proc_set s i) = PROC_RUNNING \<and> last_schedule_time (proc_set s i) > 0
      then
        let (current_time, s1) = mtime_get s;
            runtime = current_time - last_schedule_time (proc_set s1 i);
            p1 = (proc_set s1 i)\<lparr>total_cpu_time := total_cpu_time (proc_set s1 i) + runtime\<rparr>
        in set_proc i (mlfq_update_level p1 runtime) s1
      else s)"

definition proc_set_runnable :: "int \<Rightarrow> kstate \<Rightarrow> kstate" where
  "proc_set_runnable p s =
     (case find_pid s p of
        None \<Rightarrow> s
      | Some i \<Rightarrow>
          let s1 = account_runtime i s
          in set_proc i ((proc_set s1 i)\<lparr>status := PROC_RUNNABLE\<rparr>) s1)"

definition proc_set_pending :: "int \<Rightarrow> kstate \<Rightarrow> kstate" where
  "proc_set_pending p s =
     (case find_pid s p of
        None \<Rightarrow> s
      | Some i \<Rightarrow>
          let s1 = account_runtime i s
          in set_proc i ((proc_set s1 i)\<lparr>status := PROC_PENDING_SYSCALL\<rparr>) s1)"

text \<open>
  \<^verbatim>\<open>proc_alloc\<close> scans the indices \<open>1..MAX_NPROCESS\<close>. Its counter is a \<^verbatim>\<open>uint\<close>, stored
  into the \<^verbatim>\<open>int\<close> field \<^verbatim>\<open>pid\<close> and returned as \<^verbatim>\<open>int\<close>.
\<close>

definition proc_alloc :: "kstate \<Rightarrow> fatal + (int \<times> kstate)" where
  "proc_alloc s =
     (case find (\<lambda>i. status (proc_set s i) = PROC_UNUSED) [1..<Suc MAX_NPROCESS] of
        None \<Rightarrow> Inl FATAL_proc_alloc
      | Some i \<Rightarrow>
          let c = alloc_curr_pid s + 1;
              s1 = s\<lparr>alloc_curr_pid := c\<rparr>;
              (current_time, s2) = mtime_get s1;
              p = (proc_set s2 i)\<lparr>
                    pid := sint c, status := PROC_LOADING,
                    creation_time := current_time, first_schedule_time := 0,
                    total_cpu_time := 0, termination_time := 0, timer_interrupt_count := 0,
                    queue_level := 0, queue_time := 0, last_schedule_time := 0,
                    wakeup_time := 0\<rparr>
          in Inr (sint c, set_proc i p s2))"

text \<open>
  \<^verbatim>\<open>proc_free\<close>. The six-line termination report is recorded as one event; the
  numbers it prints are computed from fields that the function does not write back.
\<close>

definition free_one :: "nat \<Rightarrow> kstate \<Rightarrow> kstate" where
  "free_one i s =
     (let (current_time, s1) = mtime_get s;
          s2 = set_proc i ((proc_set s1 i)\<lparr>termination_time := current_time\<rparr>) s1
      in earth (PRINT_TERMINATED (pid (proc_set s2 i))) s2)"

definition free_all_step :: "egos_consts \<Rightarrow> nat \<Rightarrow> kstate \<Rightarrow> kstate" where
  "free_all_step K i s =
     (if pid (proc_set s i) \<ge> GPID_USER_START K \<and> status (proc_set s i) \<noteq> PROC_UNUSED
      then
        let s1 = free_one i s;
            s2 = earth (MMU_FREE (pid (proc_set s1 i))) s1
        in set_proc i ((proc_set s2 i)\<lparr>status := PROC_UNUSED\<rparr>) s2
      else s)"

definition proc_free :: "egos_consts \<Rightarrow> int \<Rightarrow> kstate \<Rightarrow> kstate" where
  "proc_free K p s =
     (if p \<noteq> GPID_ALL K then
        (case find (\<lambda>i. pid (proc_set s i) = p \<and> status (proc_set s i) \<noteq> PROC_UNUSED)
                [0..<MAX_NPROCESS] of
           None \<Rightarrow> s
         | Some i \<Rightarrow> proc_set_status p PROC_UNUSED (earth (MMU_FREE p) (free_one i s)))
      else fold (free_all_step K) [0..<MAX_NPROCESS] s)"

definition reset_queue :: "process \<Rightarrow> process" where
  "reset_queue p = p\<lparr>queue_level := 0, queue_time := 0\<rparr>"

definition mlfq_reset_level :: "egos_consts \<Rightarrow> kstate \<Rightarrow> kstate" where
  "mlfq_reset_level K s =
     (let (current_time, s1) = mtime_get s;
          s2 = (if \<not> tty_input_empty s1 then
                  (case find (\<lambda>i. pid (proc_set s1 i) = GPID_SHELL K
                                   \<and> status (proc_set s1 i) \<noteq> PROC_UNUSED) [0..<MAX_NPROCESS] of
                     None \<Rightarrow> s1
                   | Some i \<Rightarrow> set_proc i (reset_queue (proc_set s1 i)) s1)
                else s1)
      in if current_time - MLFQ_last_reset_time s2 \<ge> MLFQ_RESET_PERIOD
         then s2\<lparr>proc_set := (\<lambda>i. if i < MAX_NPROCESS \<and> status (proc_set s2 i) \<noteq> PROC_UNUSED
                                    then reset_queue (proc_set s2 i) else proc_set s2 i),
                 MLFQ_last_reset_time := current_time\<rparr>
         else s2)"

definition proc_sleep :: "int \<Rightarrow> 32 word \<Rightarrow> kstate \<Rightarrow> kstate" where
  "proc_sleep p usec s =
     (let (current_time, s1) = mtime_get s
      in case find (\<lambda>i. pid (proc_set s1 i) = p \<and> status (proc_set s1 i) \<noteq> PROC_UNUSED)
              [0..<MAX_NPROCESS] of
           None \<Rightarrow> s1
         | Some i \<Rightarrow>
             set_proc i ((proc_set s1 i)\<lparr>wakeup_time := current_time + ucast usec,
                                         status := PROC_PENDING_SYSCALL\<rparr>) s1)"

section \<open>System calls and the scheduler (grass/kernel.c)\<close>

text \<open>
  \<^verbatim>\<open>memcpy(dst, src, n)\<close> on two payload buffers: the first \<open>n\<close> bytes of \<open>dst\<close> become
  those of \<open>src\<close>. Both buffers are \<^verbatim>\<open>char content[SYSCALL_MSG_LEN]\<close>.
\<close>

definition memcpy :: "8 word list \<Rightarrow> 8 word list \<Rightarrow> nat \<Rightarrow> 8 word list" where
  "memcpy dst src n = take n src @ drop n dst"

text \<open>
  The functions of \<^verbatim>\<open>kernel.c\<close> take a pointer into \<^verbatim>\<open>proc_set\<close>; the model takes the
  index, so that a write through one pointer is seen through the other.
\<close>

definition proc_try_send :: "egos_consts \<Rightarrow> nat \<Rightarrow> kstate \<Rightarrow> fatal + kstate" where
  "proc_try_send K sidx s =
     (let snd = proc_set s sidx
      in case find (\<lambda>i. pid (proc_set s i) = receiver (syscall snd)
                         \<and> status (proc_set s i) \<noteq> PROC_UNUSED) [0..<MAX_NPROCESS] of
           None \<Rightarrow> Inl (FATAL_unknown_receiver (receiver (syscall snd)))
         | Some i \<Rightarrow>
             let dst = proc_set s i
             in if \<not> (stype (syscall dst) = SYS_RECV \<and> sstatus (syscall dst) = PENDING)
                then Inr s
                else if \<not> (sender (syscall dst) = GPID_ALL K \<or> sender (syscall dst) = pid snd)
                then Inr s
                else Inr (set_proc i
                       (dst\<lparr>syscall := (syscall dst)\<lparr>
                              sstatus := DONE, sender := pid snd,
                              content := memcpy (content (syscall dst)) (content (syscall snd))
                                           (SYSCALL_MSG_LEN K)\<rparr>\<rparr>) s))"

definition proc_try_recv :: "nat \<Rightarrow> kstate \<Rightarrow> kstate" where
  "proc_try_recv ridx s =
     (if sstatus (syscall (proc_set s ridx)) = PENDING then s
      else
        let s1 = earth (MMU_COPY_OUT (pid (proc_set s ridx)) (syscall (proc_set s ridx))) s;
            s2 = proc_set_runnable (pid (proc_set s1 ridx)) s1
        in proc_set_runnable (sender (syscall (proc_set s2 ridx))) s2)"

definition proc_try_syscall :: "egos_consts \<Rightarrow> nat \<Rightarrow> kstate \<Rightarrow> fatal + kstate" where
  "proc_try_syscall K idx s =
     (case stype (syscall (proc_set s idx)) of
        SYS_RECV \<Rightarrow> Inr (proc_try_recv idx s)
      | SYS_SEND \<Rightarrow> proc_try_send K idx s
      | SYS_UNUSED \<Rightarrow> Inl FATAL_unknown_syscall)"

definition sleeping :: "64 word \<Rightarrow> process \<Rightarrow> bool" where
  "sleeping current_time p \<longleftrightarrow> wakeup_time p > 0 \<and> current_time < wakeup_time p"

definition schedulable :: "process \<Rightarrow> bool" where
  "schedulable p \<longleftrightarrow> status p = PROC_READY \<or> status p = PROC_RUNNABLE"

text \<open>One iteration of the first loop of \<^verbatim>\<open>proc_yield\<close>, up to the \<^verbatim>\<open>continue\<close>.\<close>

definition wake_and_try :: "egos_consts \<Rightarrow> 64 word \<Rightarrow> nat \<Rightarrow> kstate \<Rightarrow> fatal + kstate" where
  "wake_and_try K current_time i s =
     (let p = proc_set s i;
          s1 = (if status p = PROC_PENDING_SYSCALL \<and> wakeup_time p > 0
                   \<and> current_time \<ge> wakeup_time p
                then set_proc i (p\<lparr>wakeup_time := 0, status := PROC_RUNNABLE\<rparr>) s
                else s)
      in if status (proc_set s1 i) = PROC_PENDING_SYSCALL then proc_try_syscall K i s1
         else Inr s1)"

text \<open>
  The first loop, over the indices still to visit, carrying \<^verbatim>\<open>next_idx\<close> and
  \<^verbatim>\<open>min_level\<close>.
\<close>

fun first_pass ::
  "egos_consts \<Rightarrow> 64 word \<Rightarrow> nat list \<Rightarrow> nat \<Rightarrow> int \<Rightarrow> kstate \<Rightarrow> fatal + (nat \<times> kstate)" where
  "first_pass K current_time [] next_idx min_level s = Inr (next_idx, s)"
| "first_pass K current_time (i # is) next_idx min_level s =
     (case wake_and_try K current_time i s of
        Inl e \<Rightarrow> Inl e
      | Inr s1 \<Rightarrow>
          let p = proc_set s1 i
          in if sleeping current_time p
             then first_pass K current_time is next_idx min_level s1
             else if schedulable p \<and> queue_level p < min_level
             then first_pass K current_time is i (queue_level p) s1
             else first_pass K current_time is next_idx min_level s1)"

text \<open>The second loop, which stops at the first process it can schedule.\<close>

fun second_pass ::
  "egos_consts \<Rightarrow> 64 word \<Rightarrow> nat list \<Rightarrow> nat \<Rightarrow> kstate \<Rightarrow> fatal + (nat \<times> kstate)" where
  "second_pass K current_time [] next_idx s = Inr (next_idx, s)"
| "second_pass K current_time (i # is) next_idx s =
     (case (if status (proc_set s i) = PROC_PENDING_SYSCALL then proc_try_syscall K i s
            else Inr s) of
        Inl e \<Rightarrow> Inl e
      | Inr s1 \<Rightarrow>
          let p = proc_set s1 i
          in if sleeping current_time p
             then second_pass K current_time is next_idx s1
             else if schedulable p then Inr (i, s1)
             else second_pass K current_time is next_idx s1)"

text \<open>
  \<^verbatim>\<open>proc_yield\<close> up to the choice of \<^verbatim>\<open>next_idx\<close>: the running process is made
  runnable, the MLFQ levels are reset if due, the clock is read once for both loops, and
  the second loop runs when the first leaves \<^verbatim>\<open>next_idx\<close> at \<^verbatim>\<open>MAX_NPROCESS\<close>.
\<close>

definition yield_prepare :: "egos_consts \<Rightarrow> kstate \<Rightarrow> 64 word \<times> kstate" where
  "yield_prepare K s =
     (let s1 = (if curr_status s = PROC_RUNNING then proc_set_runnable (curr_pid s) s else s);
          s2 = mlfq_reset_level K s1
      in mtime_get s2)"

definition yield_select :: "egos_consts \<Rightarrow> kstate \<Rightarrow> fatal + (nat \<times> kstate)" where
  "yield_select K s =
     (let (current_time, s3) = yield_prepare K s
      in case first_pass K current_time [1..<Suc MAX_NPROCESS] MAX_NPROCESS MLFQ_LEVELS s3 of
           Inl e \<Rightarrow> Inl e
         | Inr (next_idx, s4) \<Rightarrow>
             if next_idx = MAX_NPROCESS
             then second_pass K current_time [1..<Suc MAX_NPROCESS] next_idx s4
             else Inr (next_idx, s4))"

text \<open>The branch \<^verbatim>\<open>next_idx < MAX_NPROCESS\<close> and the code after it.\<close>

definition yield_dispatch :: "egos_consts \<Rightarrow> nat \<Rightarrow> kstate \<Rightarrow> kstate" where
  "yield_dispatch K next_idx s =
     (let s1 = (if first_schedule_time (proc_set s next_idx) = 0
                then (let (t, s') = mtime_get s
                      in set_proc next_idx ((proc_set s' next_idx)\<lparr>first_schedule_time := t\<rparr>) s')
                else s);
          (t2, s2) = mtime_get s1;
          s3 = set_proc next_idx ((proc_set s2 next_idx)\<lparr>last_schedule_time := t2\<rparr>) s2;
          s4 = earth (if pid (proc_set s3 next_idx) \<ge> GPID_USER_START K
                      then SET_MPP_USER else SET_MPP_MACHINE) s3;
          s5 = s4\<lparr>core_to_proc_idx := (core_to_proc_idx s4)(core_in_kernel s4 := next_idx)\<rparr>;
          s6 = earth MMU_FLUSH_CACHE (earth (MMU_SWITCH (curr_pid s5)) s5);
          s7 = (if curr_status s6 = PROC_READY
                then set_proc (curr_proc_idx s6)
                       ((proc_set s6 (curr_proc_idx s6))\<lparr>
                          saved_registers :=
                            (saved_registers (proc_set s6 (curr_proc_idx s6)))
                              [0 := APPS_ARG K, 1 := APPS_ARG K + 4],
                          mepc := APPS_ENTRY K\<rparr>) s6
                else s6);
          s8 = proc_set_running (curr_pid s7) s7
      in earth (TIMER_RESET (core_in_kernel s8)) s8)"

text \<open>The \<^verbatim>\<open>else\<close> branch: the core becomes idle.\<close>

definition yield_idle :: "kstate \<Rightarrow> kstate" where
  "yield_idle s =
     (let s1 = s\<lparr>core_to_proc_idx := (core_to_proc_idx s)(core_in_kernel s := 0)\<rparr>;
          s2 = earth (TIMER_RESET (core_in_kernel s1)) s1
      in earth WFI (earth SET_MIE s2))"

definition proc_yield :: "egos_consts \<Rightarrow> kstate \<Rightarrow> fatal + kstate" where
  "proc_yield K s =
     (case yield_select K s of
        Inl e \<Rightarrow> Inl e
      | Inr (next_idx, s5) \<Rightarrow>
          if next_idx < MAX_NPROCESS then Inr (yield_dispatch K next_idx s5)
          else Inr (yield_idle s5))"

text \<open>
  \<^verbatim>\<open>excp_entry\<close>. \<open>user_syscall\<close> is the record that the \<^verbatim>\<open>memcpy\<close> reads from the
  user's memory at \<^verbatim>\<open>SYSCALL_ARG\<close>.
\<close>

definition excp_entry :: "egos_consts \<Rightarrow> nat \<Rightarrow> syscall_struct \<Rightarrow> kstate \<Rightarrow> fatal + kstate" where
  "excp_entry K excp_id user_syscall s =
     (if 8 \<le> excp_id \<and> excp_id \<le> 11 then
        let c = curr_proc_idx s;
            s1 = set_proc c ((proc_set s c)\<lparr>syscall := user_syscall\<lparr>sstatus := PENDING\<rparr>\<rparr>) s;
            s2 = proc_set_pending (curr_pid s1) s1;
            s3 = set_proc c ((proc_set s2 c)\<lparr>mepc := mepc (proc_set s2 c) + 4\<rparr>) s2
        in case proc_try_syscall K c s3 of
             Inl e \<Rightarrow> Inl e
           | Inr s4 \<Rightarrow> proc_yield K s4
      else if curr_pid s \<ge> GPID_USER_START K then
        proc_yield K (proc_free K (curr_pid s) (earth (PRINT_KILLED (curr_pid s) excp_id) s))
      else Inl (FATAL_kernel_exception excp_id))"

definition intr_entry :: "egos_consts \<Rightarrow> nat \<Rightarrow> kstate \<Rightarrow> fatal + kstate" where
  "intr_entry K intr_id s =
     (if intr_id \<noteq> 7 then Inl (FATAL_interrupt intr_id)
      else
        let c = curr_proc_idx s;
            s3 = (if c > 0 \<and> c \<le> MAX_NPROCESS then
                    let s1 = set_proc c ((proc_set s c)\<lparr>
                               timer_interrupt_count := timer_interrupt_count (proc_set s c) + 1\<rparr>) s;
                        (current_time, s2) = mtime_get s1;
                        p = proc_set s2 c;
                        p1 = (if last_schedule_time p > 0
                              then let runtime = current_time - last_schedule_time p
                                   in mlfq_update_level
                                        (p\<lparr>total_cpu_time := total_cpu_time p + runtime\<rparr>) runtime
                              else p)
                    in set_proc c (p1\<lparr>last_schedule_time := current_time\<rparr>) s2
                  else s)
        in proc_yield K s3)"

section \<open>Predicates on the process table\<close>

text \<open>
  A PCB that the loops of \<^verbatim>\<open>proc_yield\<close> can take: it is READY or RUNNABLE (\<open>schedulable\<close>) and
  not \<open>sleeping\<close>; \<open>eligible\<close> adds the test against \<^verbatim>\<open>min_level\<close> of the first loop.
\<close>

definition awake :: "64 word \<Rightarrow> process \<Rightarrow> bool" where
  "awake now p \<longleftrightarrow> schedulable p \<and> \<not> sleeping now p"

definition eligible :: "64 word \<Rightarrow> int \<Rightarrow> process \<Rightarrow> bool" where
  "eligible now m p \<longleftrightarrow> schedulable p \<and> \<not> sleeping now p \<and> queue_level p < m"

text \<open>
  A PCB whose sleep has run out by \<open>now\<close> but which is still PENDING_SYSCALL: the first
  loop wakes it when it gets there.
\<close>

definition overdue :: "64 word \<Rightarrow> process \<Rightarrow> bool" where
  "overdue now p \<longleftrightarrow> status p = PROC_PENDING_SYSCALL \<and> 0 < wakeup_time p \<and> wakeup_time p \<le> now"

text \<open>
  The PCBs that compete for the CPU when the first loop starts: those that are READY or
  RUNNABLE, and those that sleep on a timer, in both cases unless \<open>wakeup_time\<close> is still
  ahead, and with a level below \<open>m\<close>.
\<close>

definition competes :: "64 word \<Rightarrow> int \<Rightarrow> process \<Rightarrow> bool" where
  "competes now m p \<longleftrightarrow>
     (schedulable p \<or> (status p = PROC_PENDING_SYSCALL \<and> 0 < wakeup_time p))
     \<and> \<not> sleeping now p \<and> queue_level p < m"

text \<open>A PCB that blocks in a receive.\<close>

definition recv_waiting :: "process \<Rightarrow> bool" where
  "recv_waiting p \<longleftrightarrow> status p = PROC_PENDING_SYSCALL \<and> stype (syscall p) = SYS_RECV"

text \<open>
  What one PCB can undergo while the two loops run: its pid and the type of its system
  call stay; its status stays or becomes RUNNABLE; its \<open>wakeup_time\<close> stays or is cleared by
  the wake-up of the first loop; and its level stays unless it was RUNNING.
\<close>

definition pcb_step :: "64 word \<Rightarrow> process \<Rightarrow> process \<Rightarrow> bool" where
  "pcb_step now p p' \<longleftrightarrow>
     pid p' = pid p \<and> stype (syscall p') = stype (syscall p)
     \<and> (status p' = status p \<or> status p' = PROC_RUNNABLE)
     \<and> (wakeup_time p' = wakeup_time p
        \<or> (wakeup_time p' = 0 \<and> 0 < wakeup_time p \<and> wakeup_time p \<le> now
           \<and> status p = PROC_PENDING_SYSCALL \<and> status p' = PROC_RUNNABLE))
     \<and> (status p \<noteq> PROC_RUNNING \<longrightarrow> queue_level p' = queue_level p)"

definition scan_rel :: "64 word \<Rightarrow> kstate \<Rightarrow> kstate \<Rightarrow> bool" where
  "scan_rel now s s' \<longleftrightarrow> (\<forall>j. pcb_step now (proc_set s j) (proc_set s' j))"

text \<open>
  The result \<open>d\<close> of the first loop over the indices \<open>is\<close>, started in \<open>s\<close> and ended in \<open>s'\<close>,
  when the loop has taken a PCB: no competitor of the start has a lower level, or the
  same level at a lower index.
\<close>

definition chosen :: "64 word \<Rightarrow> int \<Rightarrow> nat list \<Rightarrow> kstate \<Rightarrow> nat \<Rightarrow> kstate \<Rightarrow> bool" where
  "chosen now m is s d s' \<longleftrightarrow>
     d \<in> set is \<and> eligible now m (proc_set s' d)
     \<and> (\<forall>j\<in>set is. competes now m (proc_set s j) \<longrightarrow>
           queue_level (proc_set s' d) \<le> queue_level (proc_set s j)
         \<and> (queue_level (proc_set s' d) = queue_level (proc_set s j) \<longrightarrow> d \<le> j))"

text \<open>
  The table as the code keeps it. No function writes a status other than UNUSED or LOADING
  to the slot \<open>MAX_NPROCESS\<close>: \<^verbatim>\<open>proc_alloc\<close> makes it LOADING and every other write to a
  status goes through a scan of the indices below \<open>MAX_NPROCESS\<close>, or needs the slot to be
  PENDING_SYSCALL already. And a PCB in use is the first slot with its pid, the one that
  the scans for a pid find: \<^verbatim>\<open>proc_alloc\<close> takes the pids from a counter.
\<close>

definition table_ok :: "kstate \<Rightarrow> bool" where
  "table_ok s \<longleftrightarrow>
     (status (proc_set s MAX_NPROCESS) = PROC_UNUSED
      \<or> status (proc_set s MAX_NPROCESS) = PROC_LOADING)
     \<and> (\<forall>i\<in>set [0..<MAX_NPROCESS]. status (proc_set s i) \<noteq> PROC_UNUSED
           \<longrightarrow> find_pid s (pid (proc_set s i)) = Some i)"

text \<open>
  A receive that has been served and waits for \<^verbatim>\<open>proc_try_recv\<close>; a receive that takes a
  message from the sender \<open>src\<close>.
\<close>

definition ripe :: "process \<Rightarrow> bool" where
  "ripe p \<longleftrightarrow>
     status p = PROC_PENDING_SYSCALL \<and> stype (syscall p) = SYS_RECV \<and> sstatus (syscall p) = DONE"

definition accepting :: "egos_consts \<Rightarrow> process \<Rightarrow> process \<Rightarrow> bool" where
  "accepting K dst src \<longleftrightarrow>
     stype (syscall dst) = SYS_RECV \<and> sstatus (syscall dst) = PENDING
     \<and> (sender (syscall dst) = GPID_ALL K \<or> sender (syscall dst) = pid src)"

text \<open>
  The sender recorded in the PCB at \<open>j\<close> is at a higher index than \<open>j\<close>, if it is in the
  table at all; the send of the PCB at \<open>v\<close> cannot be served at present.
\<close>

definition fwd :: "kstate \<Rightarrow> nat \<Rightarrow> bool" where
  "fwd s j \<longleftrightarrow>
     (case find_pid s (sender (syscall (proc_set s j))) of None \<Rightarrow> True | Some k \<Rightarrow> j < k)"

definition stuck :: "egos_consts \<Rightarrow> kstate \<Rightarrow> nat \<Rightarrow> bool" where
  "stuck K s v \<longleftrightarrow>
     (status (proc_set s v) = PROC_PENDING_SYSCALL \<and> stype (syscall (proc_set s v)) = SYS_SEND
      \<longrightarrow> (\<forall>d<MAX_NPROCESS. status (proc_set s d) = PROC_PENDING_SYSCALL
              \<and> pid (proc_set s d) = receiver (syscall (proc_set s v))
            \<longrightarrow> \<not> accepting K (proc_set s d) (proc_set s v)))"

text \<open>
  What the loops of \<^verbatim>\<open>proc_yield\<close> keep of the table: pids, the type and the receiver of
  each system call; a system call record changes only when a send completes it; and a
  status changes only to RUNNABLE, for a blocked PCB or for the first slot with its pid.
\<close>

definition ipc_rel :: "kstate \<Rightarrow> kstate \<Rightarrow> bool" where
  "ipc_rel s s' \<longleftrightarrow> (\<forall>j.
     pid (proc_set s' j) = pid (proc_set s j)
     \<and> stype (syscall (proc_set s' j)) = stype (syscall (proc_set s j))
     \<and> receiver (syscall (proc_set s' j)) = receiver (syscall (proc_set s j))
     \<and> (syscall (proc_set s' j) = syscall (proc_set s j)
        \<or> (sstatus (syscall (proc_set s j)) = PENDING \<and> sstatus (syscall (proc_set s' j)) = DONE))
     \<and> (status (proc_set s' j) = status (proc_set s j)
        \<or> (status (proc_set s' j) = PROC_RUNNABLE
           \<and> (status (proc_set s j) = PROC_PENDING_SYSCALL
              \<or> find_pid s (pid (proc_set s j)) = Some j))))"

text \<open>
  What holds when the first loop has visited the indices in \<open>V\<close>: a served receive among them
  names a sender further up, and none of their sends can be served.
\<close>

definition first_inv :: "egos_consts \<Rightarrow> nat set \<Rightarrow> kstate \<Rightarrow> bool" where
  "first_inv K V s \<longleftrightarrow>
     table_ok s \<and> (\<forall>j\<in>V. ripe (proc_set s j) \<longrightarrow> fwd s j) \<and> (\<forall>v\<in>V. stuck K s v)"

section \<open>A send and the matching receive\<close>

text \<open>
  A sender in slot \<open>sslot\<close> with pid \<open>spid\<close>, a receiver in slot \<open>rslot\<close> with pid
  \<open>rpid\<close>, and the message the sender passes.
\<close>

record ipc_pair =
  sslot :: nat
  rslot :: nat
  spid :: int
  rpid :: int
  msg :: "8 word list"

text \<open>A process is unblocked when it is RUNNABLE, or RUNNING after a dispatch.\<close>

definition unblocked :: "process \<Rightarrow> bool" where
  "unblocked p \<longleftrightarrow> status p = PROC_RUNNABLE \<or> status p = PROC_RUNNING"

text \<open>
  The sender is blocked in a send of the message to the receiver; the receiver is blocked in
  a receive, from anyone or from the sender, that no send has completed yet; the receive
  has completed with the message and the pid of the sender.
\<close>

definition sending :: "ipc_pair \<Rightarrow> process \<Rightarrow> bool" where
  "sending P p \<longleftrightarrow>
     status p = PROC_PENDING_SYSCALL \<and> stype (syscall p) = SYS_SEND
     \<and> receiver (syscall p) = rpid P \<and> content (syscall p) = msg P"

definition receiving :: "egos_consts \<Rightarrow> ipc_pair \<Rightarrow> process \<Rightarrow> bool" where
  "receiving K P p \<longleftrightarrow>
     status p = PROC_PENDING_SYSCALL \<and> stype (syscall p) = SYS_RECV
     \<and> sstatus (syscall p) = PENDING
     \<and> (sender (syscall p) = GPID_ALL K \<or> sender (syscall p) = spid P)
     \<and> length (content (syscall p)) = SYSCALL_MSG_LEN K"

definition received :: "ipc_pair \<Rightarrow> process \<Rightarrow> bool" where
  "received P p \<longleftrightarrow>
     stype (syscall p) = SYS_RECV \<and> sstatus (syscall p) = DONE
     \<and> sender (syscall p) = spid P \<and> content (syscall p) = msg P"

text \<open>
  A third process that is blocked in a system call and does not come between the two: it
  waits in a receive that is not completed, or that a process other than the two has
  completed; or it waits in a send to a process that is in the table and is not the
  receiver.
\<close>

definition bystander :: "ipc_pair \<Rightarrow> kstate \<Rightarrow> process \<Rightarrow> bool" where
  "bystander P st p \<longleftrightarrow>
     (stype (syscall p) = SYS_RECV
      \<and> (sstatus (syscall p) = PENDING
         \<or> (sender (syscall p) \<noteq> spid P \<and> sender (syscall p) \<noteq> rpid P)))
     \<or> (stype (syscall p) = SYS_SEND \<and> receiver (syscall p) \<noteq> rpid P
        \<and> (\<exists>d\<in>set [0..<MAX_NPROCESS]. pid (proc_set st d) = receiver (syscall p)
              \<and> status (proc_set st d) \<noteq> PROC_UNUSED))"

text \<open>
  The two processes are in slots that the pid scans visit, no other slot holds the pid of
  either, neither of them has a wake-up time, the current process is in the table, and
  every other process that is blocked in a system call is a bystander.
\<close>

definition pair_ok :: "ipc_pair \<Rightarrow> kstate \<Rightarrow> bool" where
  "pair_ok P st \<longleftrightarrow>
     sslot P \<noteq> rslot P \<and> 1 \<le> sslot P \<and> sslot P < MAX_NPROCESS
     \<and> 1 \<le> rslot P \<and> rslot P < MAX_NPROCESS \<and> spid P \<noteq> rpid P
     \<and> pid (proc_set st (sslot P)) = spid P \<and> pid (proc_set st (rslot P)) = rpid P
     \<and> wakeup_time (proc_set st (sslot P)) = 0 \<and> wakeup_time (proc_set st (rslot P)) = 0
     \<and> curr_proc_idx st \<le> MAX_NPROCESS
     \<and> (\<forall>i\<in>set [0..<Suc MAX_NPROCESS]. i \<noteq> sslot P \<and> i \<noteq> rslot P \<longrightarrow>
           pid (proc_set st i) \<noteq> spid P \<and> pid (proc_set st i) \<noteq> rpid P
         \<and> (status (proc_set st i) = PROC_PENDING_SYSCALL \<longrightarrow> bystander P st (proc_set st i)))"

text \<open>
  The three phases of a rendezvous: both blocked and nothing copied (0), the message copied
  into the PCB of the receiver and both still blocked (1), both unblocked (2).
\<close>

definition phase :: "egos_consts \<Rightarrow> ipc_pair \<Rightarrow> nat \<Rightarrow> kstate \<Rightarrow> bool" where
  "phase K P k st \<longleftrightarrow>
     pair_ok P st \<and> length (msg P) = SYSCALL_MSG_LEN K
     \<and> stype (syscall (proc_set st (sslot P))) = SYS_SEND
     \<and> (if k = 0 then sending P (proc_set st (sslot P)) \<and> receiving K P (proc_set st (rslot P))
        else if k = 1 then sending P (proc_set st (sslot P))
               \<and> status (proc_set st (rslot P)) = PROC_PENDING_SYSCALL
               \<and> received P (proc_set st (rslot P))
        else k = 2 \<and> unblocked (proc_set st (sslot P)) \<and> unblocked (proc_set st (rslot P))
               \<and> received P (proc_set st (rslot P)))"

definition delivered :: "ipc_pair \<Rightarrow> kstate \<Rightarrow> bool" where
  "delivered P st \<longleftrightarrow>
     unblocked (proc_set st (sslot P)) \<and> unblocked (proc_set st (rslot P))
     \<and> received P (proc_set st (rslot P))"

text \<open>
  What the bystanders and the scheduler may do during phase \<open>k\<close>: no pid changes; a status
  changes only to RUNNABLE or RUNNING, and that of the two only in phase 2; the system
  call records and the wake-up times of the two stay, and the record of another process
  changes only when a third process completes its receive.
\<close>

definition env_step :: "ipc_pair \<Rightarrow> nat \<Rightarrow> kstate \<Rightarrow> kstate \<Rightarrow> bool" where
  "env_step P k st st' \<longleftrightarrow>
     curr_proc_idx st' \<le> MAX_NPROCESS
     \<and> (\<forall>j. pid (proc_set st' j) = pid (proc_set st j)
          \<and> (status (proc_set st' j) = status (proc_set st j)
             \<or> (unblocked (proc_set st' j) \<and> (j = sslot P \<or> j = rslot P \<longrightarrow> k = 2)))
          \<and> (if j = sslot P \<or> j = rslot P
              then syscall (proc_set st' j) = syscall (proc_set st j)
                   \<and> wakeup_time (proc_set st' j) = wakeup_time (proc_set st j)
              else syscall (proc_set st' j) = syscall (proc_set st j)
                   \<or> (stype (syscall (proc_set st' j)) = SYS_RECV
                      \<and> sender (syscall (proc_set st' j)) \<noteq> spid P
                      \<and> sender (syscall (proc_set st' j)) \<noteq> rpid P)))"

text \<open>What the loops of \<^verbatim>\<open>proc_yield\<close> do to a PCB that does not sleep.\<close>

definition try_step :: "egos_consts \<Rightarrow> nat \<Rightarrow> kstate \<Rightarrow> fatal + kstate" where
  "try_step K i st =
     (if status (proc_set st i) = PROC_PENDING_SYSCALL then proc_try_syscall K i st else Inr st)"

text \<open>The state that \<^verbatim>\<open>excp_entry\<close> hands to \<^verbatim>\<open>proc_try_syscall\<close>.\<close>

definition posted :: "syscall_struct \<Rightarrow> kstate \<Rightarrow> kstate" where
  "posted user_syscall s =
     (let c = curr_proc_idx s;
          s1 = set_proc c ((proc_set s c)\<lparr>syscall := user_syscall\<lparr>sstatus := PENDING\<rparr>\<rparr>) s;
          s2 = proc_set_pending (curr_pid s1) s1
      in set_proc c ((proc_set s2 c)\<lparr>mepc := mepc (proc_set s2 c) + 4\<rparr>) s2)"

text \<open>The kernel yields \<open>n\<close> times in a row, and stops at the first FATAL.\<close>

fun yields :: "egos_consts \<Rightarrow> nat \<Rightarrow> kstate \<Rightarrow> fatal + kstate" where
  "yields K 0 s = Inr s"
| "yields K (Suc n) s = (case proc_yield K s of Inl e \<Rightarrow> Inl e | Inr s' \<Rightarrow> yields K n s')"

section \<open>Concrete states\<close>

text \<open>
  The zero-initialised PCB and kernel state (C globals start zeroed, and
  \<^verbatim>\<open>PROC_UNUSED\<close>, \<^verbatim>\<open>PENDING\<close> are the zeroes of their enums), from which the examples
  below are built.
\<close>

definition proc_zero :: process where
  "proc_zero = \<lparr>pid = 0,
     syscall = \<lparr>stype = SYS_UNUSED, sender = 0, receiver = 0, content = [], sstatus = PENDING\<rparr>,
     status = PROC_UNUSED, mepc = 0, saved_registers = replicate 32 0,
     creation_time = 0, first_schedule_time = 0, total_cpu_time = 0, termination_time = 0,
     timer_interrupt_count = 0, queue_level = 0, queue_time = 0, last_schedule_time = 0,
     wakeup_time = 0\<rparr>"

definition kstate_zero :: kstate where
  "kstate_zero = \<lparr>proc_set = (\<lambda>_. proc_zero), core_in_kernel = 0, core_to_proc_idx = (\<lambda>_. 0),
     alloc_curr_pid = 0, MLFQ_last_reset_time = 0, tty_input_empty = True,
     mtime = (\<lambda>_. 0), mtime_reads = 0, hal = []\<rparr>"

text \<open>The constants as egos-2000 has them, with a four-byte payload for the examples.\<close>

definition egos :: egos_consts where
  "egos = \<lparr>GPID_ALL = -1, GPID_SHELL = 4, GPID_USER_START = 5, SYSCALL_MSG_LEN = 4,
     APPS_ARG = 0x80000000, APPS_ENTRY = 0x80400000\<rparr>"

text \<open>Fifteen processes with the pids 1 to 15 in the slots 1 to 15; slot 16 is free.\<close>

definition full15 :: kstate where
  "full15 = kstate_zero\<lparr>
     proc_set := (\<lambda>i. if 1 \<le> i \<and> i \<le> 15
                       then proc_zero\<lparr>pid := int i, status := PROC_RUNNABLE\<rparr> else proc_zero),
     alloc_curr_pid := 15\<rparr>"

text \<open>
  One running process, pid 7 in slot 1, dispatched at time \<open>t\<close>, with 40 microseconds of
  CPU time so far; the clock reads 500.
\<close>

definition running_since :: "64 word \<Rightarrow> kstate" where
  "running_since t = kstate_zero\<lparr>
     proc_set := (\<lambda>_. proc_zero)(1 := proc_zero\<lparr>pid := 7, status := PROC_RUNNING,
                     total_cpu_time := 40, last_schedule_time := t\<rparr>),
     mtime := (\<lambda>_. 500)\<rparr>"

text \<open>
  A process at level 3 before any reset has happened: with the clock at 5 ms, and with
  the clock at 10 s.
\<close>

definition first_call :: kstate where
  "first_call = kstate_zero\<lparr>
     proc_set := (\<lambda>_. proc_zero)(1 := proc_zero\<lparr>pid := 1, status := PROC_RUNNABLE,
                     queue_level := 3, queue_time := 250\<rparr>),
     mtime := (\<lambda>_. 5000)\<rparr>"

definition reset_due :: kstate where
  "reset_due = kstate_zero\<lparr>
     proc_set := (\<lambda>_. proc_zero)(1 := proc_zero\<lparr>pid := 1, status := PROC_RUNNABLE,
                     queue_level := 3, queue_time := 250\<rparr>),
     mtime := (\<lambda>_. 10000000)\<rparr>"

text \<open>The process in slot 1 of \<open>full15\<close> is sending to the pid 16.\<close>

definition send_to_last :: kstate where
  "send_to_last = full15\<lparr>proc_set := (proc_set full15)(1 :=
      (proc_set full15 1)\<lparr>status := PROC_PENDING_SYSCALL,
         syscall := \<lparr>stype = SYS_SEND, sender = 0, receiver = 16,
                     content = [104, 105, 0, 0], sstatus = PENDING\<rparr>\<rparr>)\<rparr>"

text \<open>
  A receiver in slot 1 whose receive from pid 2 has completed, and the process with
  pid 2 in slot 2.
\<close>

definition stale_sender :: kstate where
  "stale_sender = kstate_zero\<lparr>
     proc_set := (\<lambda>_. proc_zero)
       (1 := proc_zero\<lparr>pid := 1, status := PROC_PENDING_SYSCALL,
               syscall := \<lparr>stype = SYS_RECV, sender = 2, receiver = 0,
                           content = [104, 105, 0, 0], sstatus = DONE\<rparr>\<rparr>,
        2 := proc_zero\<lparr>pid := 2, status := PROC_RUNNABLE\<rparr>)\<rparr>"

text \<open>Three processes that can run, at the levels 2, 1 and 1.\<close>

definition two_ready :: kstate where
  "two_ready = kstate_zero\<lparr>
     proc_set := (\<lambda>_. proc_zero)
       (3 := proc_zero\<lparr>pid := 3, status := PROC_READY, queue_level := 2\<rparr>,
        7 := proc_zero\<lparr>pid := 7, status := PROC_RUNNABLE, queue_level := 1\<rparr>,
        9 := proc_zero\<lparr>pid := 9, status := PROC_RUNNABLE, queue_level := 1\<rparr>),
     mtime := (\<lambda>_. 5000)\<rparr>"

text \<open>
  A process (pid 1, slot 1) whose last system call, a receive from pid 2, has completed,
  and which then goes to sleep: \<^verbatim>\<open>proc_sleep(1, 100)\<close> is called at time 1000, the next
  two readings of the clock give 1050 and the later ones 1200.
\<close>

definition recv_done :: syscall_struct where
  "recv_done = \<lparr>stype = SYS_RECV, sender = 2, receiver = 0, content = [104, 105, 0, 0],
     sstatus = DONE\<rparr>"

definition sleeper :: "proc_status \<Rightarrow> 64 word \<Rightarrow> process" where
  "sleeper st w = proc_zero\<lparr>pid := 1, syscall := recv_done, status := st,
     first_schedule_time := 900, last_schedule_time := 900, wakeup_time := w\<rparr>"

definition before_sleep :: kstate where
  "before_sleep = kstate_zero\<lparr>
     proc_set := (\<lambda>_. proc_zero)(1 := sleeper PROC_RUNNING 0),
     core_to_proc_idx := (\<lambda>_. 0)(0 := 1),
     mtime := (\<lambda>k. if k = 0 then 1000 else if k \<le> 2 then 1050 else 1200)\<rparr>"

definition after_sleep :: kstate where
  "after_sleep = proc_sleep 1 100 before_sleep"

definition after_first_yield :: kstate where
  "after_first_yield = projr (proc_yield egos after_sleep)"

definition after_second_yield :: kstate where
  "after_second_yield = projr (proc_yield egos after_first_yield)"

text \<open>The states that this process goes through.\<close>

definition asleep ::
  "proc_status \<Rightarrow> 64 word \<Rightarrow> nat \<Rightarrow> hal_event list \<Rightarrow> nat \<Rightarrow> kstate" where
  "asleep st w r h c = before_sleep\<lparr>proc_set := (\<lambda>_. proc_zero)(1 := sleeper st w),
     core_to_proc_idx := (\<lambda>_. 0)(0 := c), mtime_reads := r, hal := h\<rparr>"

text \<open>
  A sender (pid 2, slot 2, level 0) blocked in a send of ``hi'' to pid 5, and the
  receiver (pid 5, slot 5, level 1), which has just posted a receive from anyone and is
  the current process.
\<close>

definition send_hi :: syscall_struct where
  "send_hi = \<lparr>stype = SYS_SEND, sender = 0, receiver = 5, content = [104, 105, 0, 0],
     sstatus = PENDING\<rparr>"

definition recv_any :: syscall_struct where
  "recv_any = \<lparr>stype = SYS_RECV, sender = -1, receiver = 0, content = [0, 0, 0, 0],
     sstatus = PENDING\<rparr>"

definition recv_hi :: syscall_struct where
  "recv_hi = \<lparr>stype = SYS_RECV, sender = 2, receiver = 0, content = [104, 105, 0, 0],
     sstatus = DONE\<rparr>"

definition rendezvous ::
  "proc_status \<Rightarrow> proc_status \<Rightarrow> syscall_struct \<Rightarrow> nat \<Rightarrow> hal_event list \<Rightarrow> kstate" where
  "rendezvous ss rs rsc r h = kstate_zero\<lparr>
     proc_set := (\<lambda>_. proc_zero)
       (2 := proc_zero\<lparr>pid := 2, syscall := send_hi, status := ss\<rparr>,
        5 := proc_zero\<lparr>pid := 5, syscall := rsc, status := rs, queue_level := 1\<rparr>),
     core_to_proc_idx := (\<lambda>_. 0)(0 := 5),
     mtime := (\<lambda>_. 5000), mtime_reads := r, hal := h\<rparr>"

definition late_sender :: kstate where
  "late_sender = rendezvous PROC_PENDING_SYSCALL PROC_PENDING_SYSCALL recv_any 0 []"


text \<open>
  The same two processes in the two orders of arrival: the sender is blocked and the
  receiver, running, is about to post its receive; the receiver is blocked and the sender,
  running, is about to post its send.
\<close>

definition hi_pair :: ipc_pair where
  "hi_pair = \<lparr>sslot = 2, rslot = 5, spid = 2, rpid = 5, msg = [104, 105, 0, 0]\<rparr>"

definition send_first :: kstate where
  "send_first = rendezvous PROC_PENDING_SYSCALL PROC_RUNNING (syscall proc_zero) 0 []"

definition recv_first :: kstate where
  "recv_first = kstate_zero\<lparr>
     proc_set := (\<lambda>_. proc_zero)
       (2 := proc_zero\<lparr>pid := 2, status := PROC_RUNNING\<rparr>,
        5 := proc_zero\<lparr>pid := 5, syscall := recv_any, status := PROC_PENDING_SYSCALL,
               queue_level := 1\<rparr>),
     core_to_proc_idx := (\<lambda>_. 0)(0 := 2), mtime := (\<lambda>_. 5000)\<rparr>"


text \<open>
  A second sender: the process in slot 1 (pid 1) is blocked in a send of ``yo'' to pid 5,
  as the sender in slot 2 is with ``hi''; the receiver in slot 5 is running.
\<close>

definition send_yo :: syscall_struct where
  "send_yo = \<lparr>stype = SYS_SEND, sender = 0, receiver = 5, content = [121, 111, 0, 0],
     sstatus = PENDING\<rparr>"

definition recv_yo :: syscall_struct where
  "recv_yo = \<lparr>stype = SYS_RECV, sender = 1, receiver = 0, content = [121, 111, 0, 0],
     sstatus = DONE\<rparr>"

definition crowd :: "proc_status \<Rightarrow> process \<Rightarrow> nat \<Rightarrow> nat \<Rightarrow> hal_event list \<Rightarrow> kstate" where
  "crowd s1 p5 c r h = kstate_zero\<lparr>
     proc_set := (\<lambda>_. proc_zero)
       (1 := proc_zero\<lparr>pid := 1, syscall := send_yo, status := s1\<rparr>,
        2 := proc_zero\<lparr>pid := 2, syscall := send_hi, status := PROC_PENDING_SYSCALL\<rparr>,
        5 := p5),
     core_to_proc_idx := (\<lambda>_. 0)(0 := c), mtime := (\<lambda>_. 5000), mtime_reads := r, hal := h\<rparr>"

definition rcv :: "syscall_struct \<Rightarrow> proc_status \<Rightarrow> process" where
  "rcv sc st = proc_zero\<lparr>pid := 5, syscall := sc, status := st, mepc := 4\<rparr>"

definition ran :: "proc_status \<Rightarrow> process" where
  "ran st = proc_zero\<lparr>pid := 5, syscall := recv_yo, status := st, mepc := 4,
     first_schedule_time := 5000, last_schedule_time := 5000\<rparr>"

definition crowded :: kstate where
  "crowded = crowd PROC_PENDING_SYSCALL (proc_zero\<lparr>pid := 5, status := PROC_RUNNING\<rparr>) 5 0 []"

text \<open>
  A running process (pid 1, slot 1) that has made no system call yet: its record has no
  type.
\<close>

definition never_called :: kstate where
  "never_called = kstate_zero\<lparr>
     proc_set := (\<lambda>_. proc_zero)(1 := proc_zero\<lparr>pid := 1, status := PROC_RUNNING\<rparr>),
     core_to_proc_idx := (\<lambda>_. 0)(0 := 1), mtime := (\<lambda>_. 1000)\<rparr>"

section \<open>Basic facts\<close>

lemma scan_slots: "[0..<MAX_NPROCESS] = [0,1,2,3,4,5,6,7,8,9,10,11,12,13,14,15]"
  unfolding MAX_NPROCESS_def by (simp add: upt_rec)

lemma yield_slots: "[1..<Suc MAX_NPROCESS] = [1,2,3,4,5,6,7,8,9,10,11,12,13,14,15,16]"
  unfolding MAX_NPROCESS_def by (simp add: upt_rec)

lemma find_pid_Some:
  "find_pid s p = Some i \<longleftrightarrow>
     i < MAX_NPROCESS \<and> pid (proc_set s i) = p \<and> (\<forall>j<i. pid (proc_set s j) \<noteq> p)"
  unfolding find_pid_def by (auto simp: find_Some_iff)

lemma find_pid_None:
  "find_pid s p = None \<longleftrightarrow> (\<forall>i<MAX_NPROCESS. pid (proc_set s i) \<noteq> p)"
  unfolding find_pid_def by (auto simp: find_None_iff)

lemma set_proc_simps [simp]:
  "proc_set (set_proc i p s) = (proc_set s)(i := p)"
  "core_in_kernel (set_proc i p s) = core_in_kernel s"
  "core_to_proc_idx (set_proc i p s) = core_to_proc_idx s"
  "alloc_curr_pid (set_proc i p s) = alloc_curr_pid s"
  "MLFQ_last_reset_time (set_proc i p s) = MLFQ_last_reset_time s"
  "tty_input_empty (set_proc i p s) = tty_input_empty s"
  "mtime (set_proc i p s) = mtime s"
  "mtime_reads (set_proc i p s) = mtime_reads s"
  "hal (set_proc i p s) = hal s"
  by (simp_all add: set_proc_def)

lemma earth_simps [simp]:
  "proc_set (earth e s) = proc_set s"
  "core_in_kernel (earth e s) = core_in_kernel s"
  "core_to_proc_idx (earth e s) = core_to_proc_idx s"
  "alloc_curr_pid (earth e s) = alloc_curr_pid s"
  "MLFQ_last_reset_time (earth e s) = MLFQ_last_reset_time s"
  "tty_input_empty (earth e s) = tty_input_empty s"
  "mtime (earth e s) = mtime s"
  "mtime_reads (earth e s) = mtime_reads s"
  "hal (earth e s) = hal s @ [e]"
  by (simp_all add: earth_def)

lemma mlfq_update_level_simps [simp]:
  "pid (mlfq_update_level p r) = pid p"
  "syscall (mlfq_update_level p r) = syscall p"
  "status (mlfq_update_level p r) = status p"
  "total_cpu_time (mlfq_update_level p r) = total_cpu_time p"
  "first_schedule_time (mlfq_update_level p r) = first_schedule_time p"
  "last_schedule_time (mlfq_update_level p r) = last_schedule_time p"
  "wakeup_time (mlfq_update_level p r) = wakeup_time p"
  by (simp_all add: mlfq_update_level_def Let_def)

lemma account_runtime_other: "j \<noteq> i \<Longrightarrow> proc_set (account_runtime i s) j = proc_set s j"
  by (simp add: account_runtime_def mtime_get_def Let_def)

lemma account_runtime_same:
  "proc_set (account_runtime i s) i =
     (if status (proc_set s i) = PROC_RUNNING \<and> last_schedule_time (proc_set s i) > 0
      then let runtime = mtime s (mtime_reads s) - last_schedule_time (proc_set s i)
           in mlfq_update_level
                ((proc_set s i)\<lparr>total_cpu_time := total_cpu_time (proc_set s i) + runtime\<rparr>) runtime
      else proc_set s i)"
  by (simp add: account_runtime_def mtime_get_def Let_def)

lemma find_pid_account_runtime [simp]: "find_pid (account_runtime i s) p = find_pid s p"
  unfolding find_pid_def
  by (rule find_cong) (auto simp: account_runtime_def mtime_get_def Let_def)

lemma pid_proc_set_runnable [simp]:
  "pid (proc_set (proc_set_runnable p s) j) = pid (proc_set s j)"
  by (cases "find_pid s p"; cases "j = the (find_pid s p)")
     (auto simp: proc_set_runnable_def Let_def account_runtime_same account_runtime_other)

lemma syscall_proc_set_runnable [simp]:
  "syscall (proc_set (proc_set_runnable p s) j) = syscall (proc_set s j)"
  by (cases "find_pid s p"; cases "j = the (find_pid s p)")
     (auto simp: proc_set_runnable_def Let_def account_runtime_same account_runtime_other)

lemma find_pid_proc_set_runnable [simp]: "find_pid (proc_set_runnable q s) p = find_pid s p"
  unfolding find_pid_def by (rule find_cong) auto

lemma status_proc_set_runnable:
  "status (proc_set (proc_set_runnable p s) j) =
     (if find_pid s p = Some j then PROC_RUNNABLE else status (proc_set s j))"
  by (cases "find_pid s p"; cases "j = the (find_pid s p)")
     (auto simp: proc_set_runnable_def Let_def account_runtime_same account_runtime_other)

lemma find_pid_running_since: "find_pid (running_since t) 7 = Some 1"
  unfolding find_pid_def scan_slots by (simp add: running_since_def kstate_zero_def proc_zero_def)

lemma proc_free_stale_sender:
  "proc_set (proc_free egos 2 stale_sender)
     = (proc_set stale_sender)(2 := proc_zero\<lparr>pid := 2, status := PROC_UNUSED\<rparr>)"
  unfolding proc_free_def scan_slots
  by (auto simp add: stale_sender_def kstate_zero_def proc_zero_def egos_def free_one_def
      mtime_get_def proc_set_status_def MAX_NPROCESS_def)

lemma find_pid_earth [simp]: "find_pid (earth e s) p = find_pid s p"
  by (simp add: find_pid_def)

lemma find_pid_set_proc:
  "pid p' = pid (proc_set s i) \<Longrightarrow> find_pid (set_proc i p' s) p = find_pid s p"
  unfolding find_pid_def by (rule find_cong) auto

section \<open>The two loops of proc_yield\<close>

lemma pcb_step_refl [simp]: "pcb_step now p p"
  by (simp add: pcb_step_def)

lemma pcb_step_trans: "pcb_step now p p' \<Longrightarrow> pcb_step now p' p'' \<Longrightarrow> pcb_step now p p''"
  unfolding pcb_step_def by (elim conjE) (intro conjI; auto)

lemma scan_rel_refl [simp]: "scan_rel now s s"
  by (simp add: scan_rel_def)

lemma scan_rel_trans: "scan_rel now s s' \<Longrightarrow> scan_rel now s' s'' \<Longrightarrow> scan_rel now s s''"
  unfolding scan_rel_def by (blast intro: pcb_step_trans)

lemma scan_rel_earth [simp]: "scan_rel now s (earth e s)"
  by (simp add: scan_rel_def)

lemma scan_rel_set_proc:
  "pcb_step now (proc_set s i) p' \<Longrightarrow> scan_rel now s (set_proc i p' s)"
  by (simp add: scan_rel_def)

lemma scan_rel_proc_set_runnable: "scan_rel now s (proc_set_runnable q s)"
proof (cases "find_pid s q")
  case None
  then show ?thesis by (simp add: proc_set_runnable_def)
next
  case (Some i)
  have "pcb_step now (proc_set s j) (proc_set (proc_set_runnable q s) j)" for j
    using Some
    by (cases "j = i")
       (auto simp: proc_set_runnable_def Let_def account_runtime_same account_runtime_other
          pcb_step_def)
  then show ?thesis by (simp add: scan_rel_def)
qed

lemma scan_rel_proc_try_recv: "scan_rel now s (proc_try_recv r s)"
  unfolding proc_try_recv_def Let_def
  by (auto intro: scan_rel_trans [OF scan_rel_earth]
        scan_rel_trans [OF scan_rel_proc_set_runnable scan_rel_proc_set_runnable])

lemma scan_rel_proc_try_send: "proc_try_send K i s = Inr s' \<Longrightarrow> scan_rel now s s'"
  unfolding proc_try_send_def Let_def
  by (auto split: option.splits if_splits intro!: scan_rel_set_proc simp: pcb_step_def)

lemma scan_rel_proc_try_syscall: "proc_try_syscall K i s = Inr s' \<Longrightarrow> scan_rel now s s'"
  unfolding proc_try_syscall_def
  by (auto split: syscall_type.splits intro: scan_rel_proc_try_recv scan_rel_proc_try_send)

lemma scan_rel_wake_and_try: "wake_and_try K now i s = Inr s' \<Longrightarrow> scan_rel now s s'"
proof -
  assume a: "wake_and_try K now i s = Inr s'"
  define s1 where "s1 = (if status (proc_set s i) = PROC_PENDING_SYSCALL
      \<and> wakeup_time (proc_set s i) > 0 \<and> now \<ge> wakeup_time (proc_set s i)
    then set_proc i ((proc_set s i)\<lparr>wakeup_time := 0, status := PROC_RUNNABLE\<rparr>) s else s)"
  have 1: "scan_rel now s s1"
    unfolding s1_def by (auto intro!: scan_rel_set_proc simp: pcb_step_def)
  from a have "s' = s1 \<or> proc_try_syscall K i s1 = Inr s'"
    unfolding wake_and_try_def Let_def s1_def by (auto split: if_splits)
  then have "scan_rel now s1 s'"
    by (auto intro: scan_rel_proc_try_syscall)
  with 1 show ?thesis by (rule scan_rel_trans)
qed

lemma eligible_step:
  "pcb_step now p p' \<Longrightarrow> eligible now m p \<Longrightarrow> eligible now m p' \<and> queue_level p' = queue_level p"
  unfolding pcb_step_def eligible_def schedulable_def sleeping_def by auto

lemma eligible_scan_rel:
  "scan_rel now s s' \<Longrightarrow> eligible now m (proc_set s j)
    \<Longrightarrow> eligible now m (proc_set s' j) \<and> queue_level (proc_set s' j) = queue_level (proc_set s j)"
  unfolding scan_rel_def by (blast dest: eligible_step)

lemma not_overdue_step: "pcb_step now p p' \<Longrightarrow> \<not> overdue now p \<Longrightarrow> \<not> overdue now p'"
  unfolding pcb_step_def overdue_def by auto

lemma not_overdue_scan_rel:
  "scan_rel now s s' \<Longrightarrow> \<not> overdue now (proc_set s j) \<Longrightarrow> \<not> overdue now (proc_set s' j)"
  unfolding scan_rel_def by (blast dest: not_overdue_step)

lemma wake_and_try_not_overdue:
  assumes "wake_and_try K now i s = Inr s'"
  shows "\<not> overdue now (proc_set s' i)"
proof -
  define s1 where "s1 = (if status (proc_set s i) = PROC_PENDING_SYSCALL
      \<and> wakeup_time (proc_set s i) > 0 \<and> now \<ge> wakeup_time (proc_set s i)
    then set_proc i ((proc_set s i)\<lparr>wakeup_time := 0, status := PROC_RUNNABLE\<rparr>) s else s)"
  have 1: "\<not> overdue now (proc_set s1 i)"
    unfolding s1_def overdue_def by auto
  from assms have "s' = s1 \<or> proc_try_syscall K i s1 = Inr s'"
    unfolding wake_and_try_def Let_def s1_def by (auto split: if_splits)
  then have "scan_rel now s1 s'"
    by (auto intro: scan_rel_proc_try_syscall)
  with 1 show ?thesis by (blast dest: not_overdue_scan_rel)
qed

lemma first_pass_Cons_cases:
  assumes "first_pass K now (i # is) n m s = Inr (d, s')"
  obtains s1 where "wake_and_try K now i s = Inr s1" "\<not> eligible now m (proc_set s1 i)"
      "first_pass K now is n m s1 = Inr (d, s')"
    | s1 where "wake_and_try K now i s = Inr s1" "eligible now m (proc_set s1 i)"
      "first_pass K now is i (queue_level (proc_set s1 i)) s1 = Inr (d, s')"
  using assms
  by (auto simp: Let_def eligible_def split: sum.splits if_splits)

lemma first_pass_scan_rel:
  "first_pass K now is n m s = Inr (d, s') \<Longrightarrow> scan_rel now s s'"
proof (induction "is" arbitrary: n m s)
  case Nil
  then show ?case by simp
next
  case (Cons i "is")
  from Cons.prems show ?case
  proof (cases rule: first_pass_Cons_cases)
    case (1 s1)
    then show ?thesis
      by (blast intro: scan_rel_trans scan_rel_wake_and_try Cons.IH)
  next
    case (2 s1)
    then show ?thesis
      by (blast intro: scan_rel_trans scan_rel_wake_and_try Cons.IH)
  qed
qed

lemma first_pass_not_overdue:
  "first_pass K now is n m s = Inr (d, s') \<Longrightarrow> j \<in> set is \<Longrightarrow> \<not> overdue now (proc_set s' j)"
proof (induction "is" arbitrary: n m s)
  case Nil
  then show ?case by simp
next
  case (Cons i "is")
  from Cons.prems(1) show ?case
  proof (cases rule: first_pass_Cons_cases)
    case (1 s1)
    show ?thesis
    proof (cases "j = i")
      case True
      with 1 show ?thesis
        by (blast dest: wake_and_try_not_overdue first_pass_scan_rel not_overdue_scan_rel)
    next
      case False
      with Cons.prems(2) 1 show ?thesis by (auto dest: Cons.IH)
    qed
  next
    case (2 s1)
    show ?thesis
    proof (cases "j = i")
      case True
      with 2 show ?thesis
        by (blast dest: wake_and_try_not_overdue first_pass_scan_rel not_overdue_scan_rel)
    next
      case False
      with Cons.prems(2) 2 show ?thesis by (auto dest: Cons.IH)
    qed
  qed
qed

lemma eligible_mono: "eligible now l p \<Longrightarrow> l \<le> m \<Longrightarrow> eligible now m p"
  by (auto simp: eligible_def)

lemma competes_step:
  "pcb_step now p p' \<Longrightarrow> competes now m p
     \<Longrightarrow> competes now m p' \<and> queue_level p' = queue_level p"
  unfolding pcb_step_def competes_def schedulable_def sleeping_def by auto

lemma competes_scan_rel:
  "scan_rel now s s' \<Longrightarrow> competes now m (proc_set s j)
    \<Longrightarrow> competes now m (proc_set s' j) \<and> queue_level (proc_set s' j) = queue_level (proc_set s j)"
  unfolding scan_rel_def by (blast dest: competes_step)

lemma competes_level: "competes now m p \<Longrightarrow> queue_level p < l \<Longrightarrow> competes now l p"
  by (auto simp: competes_def)

lemma wake_and_try_competes:
  assumes "wake_and_try K now i s = Inr s1" and "competes now m (proc_set s i)"
  shows "eligible now m (proc_set s1 i) \<and> queue_level (proc_set s1 i) = queue_level (proc_set s i)"
proof -
  from assms(1) have r: "scan_rel now s s1" by (rule scan_rel_wake_and_try)
  from r assms(2) have c: "competes now m (proc_set s1 i)"
    and l: "queue_level (proc_set s1 i) = queue_level (proc_set s i)"
    by (blast dest: competes_scan_rel)+
  have "\<not> overdue now (proc_set s1 i)"
    using assms(1) by (rule wake_and_try_not_overdue)
  with c have "eligible now m (proc_set s1 i)"
    unfolding competes_def eligible_def overdue_def sleeping_def by (auto simp: not_less)
  with l show ?thesis by simp
qed

lemma first_pass_choice:
  assumes "first_pass K now is n m s = Inr (d, s')" and "sorted_wrt (<) is"
  shows "(d = n \<and> (\<forall>j\<in>set is. \<not> competes now m (proc_set s j))) \<or> chosen now m is s d s'"
  using assms
proof (induction "is" arbitrary: n m s)
  case Nil
  then show ?case by simp
next
  case (Cons i "is")
  from Cons.prems(2) have sorted: "sorted_wrt (<) is" and above: "\<forall>j\<in>set is. i < j"
    by auto
  from Cons.prems(1) show ?case
  proof (cases rule: first_pass_Cons_cases)
    case (1 s1)
    have r: "scan_rel now s s1" using 1(1) by (rule scan_rel_wake_and_try)
    have keep: "competes now m (proc_set s1 j) \<and> queue_level (proc_set s1 j) = queue_level (proc_set s j)"
      if "competes now m (proc_set s j)" for j
      using r that by (rule competes_scan_rel)
    from wake_and_try_competes [OF 1(1)] 1(2) have noti: "\<not> competes now m (proc_set s i)"
      by blast
    from Cons.IH [OF 1(3) sorted]
    show ?thesis
    proof
      assume "d = n \<and> (\<forall>j\<in>set is. \<not> competes now m (proc_set s1 j))"
      with keep noti show ?thesis by auto
    next
      assume "chosen now m is s1 d s'"
      with keep noti have "chosen now m (i # is) s d s'"
        unfolding chosen_def by (auto; metis)
      then show ?thesis ..
    qed
  next
    case (2 s1)
    let ?l = "queue_level (proc_set s1 i)"
    have r: "scan_rel now s s1" using 2(1) by (rule scan_rel_wake_and_try)
    have r': "scan_rel now s1 s'" using 2(3) by (rule first_pass_scan_rel)
    have keep: "competes now m (proc_set s1 j) \<and> queue_level (proc_set s1 j) = queue_level (proc_set s j)"
      if "competes now m (proc_set s j)" for j
      using r that by (rule competes_scan_rel)
    have keepi: "?l = queue_level (proc_set s i)" if "competes now m (proc_set s i)"
      using wake_and_try_competes [OF 2(1) that] by simp
    have lm: "?l < m" using 2(2) by (simp add: eligible_def)
    have i': "eligible now m (proc_set s' i) \<and> queue_level (proc_set s' i) = ?l"
      using r' 2(2) by (rule eligible_scan_rel)
    from Cons.IH [OF 2(3) sorted]
    have "chosen now m (i # is) s d s'"
    proof
      assume a: "d = i \<and> (\<forall>j\<in>set is. \<not> competes now ?l (proc_set s1 j))"
      have "queue_level (proc_set s' d) \<le> queue_level (proc_set s j)
          \<and> (queue_level (proc_set s' d) = queue_level (proc_set s j) \<longrightarrow> d \<le> j)"
        if j: "j \<in> set (i # is)" and e: "competes now m (proc_set s j)" for j
      proof (cases "j = i")
        case True
        with keepi e i' a show ?thesis by simp
      next
        case False
        with j have jin: "j \<in> set is" by simp
        with a have "\<not> competes now ?l (proc_set s1 j)" by blast
        with keep [OF e] have "?l \<le> queue_level (proc_set s j)"
          by (auto simp: competes_def)
        with a i' above jin show ?thesis by auto
      qed
      with a i' show ?thesis unfolding chosen_def by auto
    next
      assume c: "chosen now ?l is s1 d s'"
      then have dl: "queue_level (proc_set s' d) < ?l" and din: "d \<in> set is"
        and de: "eligible now ?l (proc_set s' d)"
        by (auto simp: chosen_def eligible_def)
      have "queue_level (proc_set s' d) \<le> queue_level (proc_set s j)
          \<and> (queue_level (proc_set s' d) = queue_level (proc_set s j) \<longrightarrow> d \<le> j)"
        if j: "j \<in> set (i # is)" and e: "competes now m (proc_set s j)" for j
      proof (cases "j = i")
        case True
        with keepi e dl show ?thesis by simp
      next
        case False
        with j have jin: "j \<in> set is" by simp
        show ?thesis
        proof (cases "queue_level (proc_set s j) < ?l")
          case True
          with keep [OF e] have "competes now ?l (proc_set s1 j)"
            by (auto simp: competes_def)
          with c jin keep [OF e] show ?thesis by (auto simp: chosen_def)
        next
          case False
          with dl show ?thesis by auto
        qed
      qed
      with din de lm show ?thesis
        unfolding chosen_def by (auto intro: eligible_mono)
    qed
    then show ?thesis ..
  qed
qed

lemma awake_step: "pcb_step now p p' \<Longrightarrow> awake now p \<Longrightarrow> awake now p'"
  unfolding pcb_step_def awake_def schedulable_def sleeping_def by auto

lemma awake_scan_rel:
  "scan_rel now s s' \<Longrightarrow> awake now (proc_set s j) \<Longrightarrow> awake now (proc_set s' j)"
  unfolding scan_rel_def by (blast dest: awake_step)

lemma eligible_awake: "eligible now m p \<longleftrightarrow> awake now p \<and> queue_level p < m"
  by (auto simp: eligible_def awake_def)

lemma second_pass_Cons_cases:
  assumes "second_pass K now (i # is) n s = Inr (d, s')"
  obtains s1 where "scan_rel now s s1" "\<not> awake now (proc_set s1 i)"
      "second_pass K now is n s1 = Inr (d, s')"
    | "scan_rel now s s'" "awake now (proc_set s' i)" "d = i"
proof -
  define t where "t = (if status (proc_set s i) = PROC_PENDING_SYSCALL
    then proc_try_syscall K i s else Inr s)"
  from assms obtain s1 where t1: "t = Inr s1"
    by (cases t) (auto simp: t_def)
  from assms t1 have rest: "(if sleeping now (proc_set s1 i) then second_pass K now is n s1
        else if schedulable (proc_set s1 i) then Inr (i, s1)
        else second_pass K now is n s1) = Inr (d, s')"
    by (simp add: t_def Let_def)
  from t1 have t: "s1 = s \<or> proc_try_syscall K i s = Inr s1"
    by (auto simp: t_def split: if_splits)
  from t have r: "scan_rel now s s1"
    by (auto intro: scan_rel_proc_try_syscall)
  show thesis
  proof (cases "awake now (proc_set s1 i)")
    case True
    with rest have "d = i" "s' = s1" by (auto simp: awake_def)
    with True r that(2) show thesis by simp
  next
    case False
    with rest have "second_pass K now is n s1 = Inr (d, s')"
      by (auto simp: awake_def split: if_splits)
    with False r that(1) show thesis by blast
  qed
qed

lemma second_pass_choice:
  assumes "second_pass K now is n s = Inr (d, s')"
  shows "scan_rel now s s'
    \<and> ((d = n \<and> (\<forall>j\<in>set is. \<not> awake now (proc_set s j)))
       \<or> (d \<in> set is \<and> awake now (proc_set s' d)
          \<and> (\<forall>j\<in>set (takeWhile (\<lambda>k. k \<noteq> d) is). \<not> awake now (proc_set s j))))"
  using assms
proof (induction "is" arbitrary: s)
  case Nil
  then show ?case by simp
next
  case (Cons i "is")
  from Cons.prems show ?case
  proof (cases rule: second_pass_Cons_cases)
    case (1 s1)
    from 1(1,2) have noti: "\<not> awake now (proc_set s i)"
      by (blast dest: awake_scan_rel)
    have earlier: "\<not> awake now (proc_set s j)" if "\<not> awake now (proc_set s1 j)" for j
      using that 1(1) by (blast dest: awake_scan_rel)
    from Cons.IH [OF 1(3)] have r: "scan_rel now s1 s'"
      and c: "(d = n \<and> (\<forall>j\<in>set is. \<not> awake now (proc_set s1 j)))
       \<or> (d \<in> set is \<and> awake now (proc_set s' d)
          \<and> (\<forall>j\<in>set (takeWhile (\<lambda>k. k \<noteq> d) is). \<not> awake now (proc_set s1 j)))"
      by blast+
    from 1(1) r have "scan_rel now s s'" by (rule scan_rel_trans)
    moreover from c noti earlier
    have "(d = n \<and> (\<forall>j\<in>set (i # is). \<not> awake now (proc_set s j)))
       \<or> (d \<in> set (i # is) \<and> awake now (proc_set s' d)
          \<and> (\<forall>j\<in>set (takeWhile (\<lambda>k. k \<noteq> d) (i # is)). \<not> awake now (proc_set s j)))"
      by auto
    ultimately show ?thesis by blast
  next
    case 2
    then show ?thesis by simp
  qed
qed

lemma proc_set_runnable_core [simp]:
  "core_in_kernel (proc_set_runnable p s) = core_in_kernel s"
  "core_to_proc_idx (proc_set_runnable p s) = core_to_proc_idx s"
  by (auto simp: proc_set_runnable_def account_runtime_def mtime_get_def Let_def
      split: option.splits)

lemma proc_set_running_core [simp]:
  "core_in_kernel (proc_set_running p s) = core_in_kernel s"
  "core_to_proc_idx (proc_set_running p s) = core_to_proc_idx s"
  by (auto simp: proc_set_running_def mtime_get_def Let_def split: option.splits)

lemma proc_set_running_pcb:
  "wakeup_time (proc_set (proc_set_running p s) j) = wakeup_time (proc_set s j)"
  "status (proc_set (proc_set_running p s) j) = status (proc_set s j)
    \<or> status (proc_set (proc_set_running p s) j) = PROC_RUNNING"
  "syscall (proc_set (proc_set_running p s) j) = syscall (proc_set s j)"
  by (auto simp: proc_set_running_def mtime_get_def Let_def split: option.splits)

lemma yield_dispatch_curr [simp]: "curr_proc_idx (yield_dispatch K d s) = d"
  by (simp add: yield_dispatch_def curr_proc_idx_def mtime_get_def Let_def split_def)

lemma yield_dispatch_pcb:
  "wakeup_time (proc_set (yield_dispatch K d s) j) = wakeup_time (proc_set s j)"
  "status (proc_set (yield_dispatch K d s) j) = status (proc_set s j)
    \<or> status (proc_set (yield_dispatch K d s) j) = PROC_RUNNING"
  "syscall (proc_set (yield_dispatch K d s) j) = syscall (proc_set s j)"
proof -
  define s7 where "s7 = (let s1 = (if first_schedule_time (proc_set s d) = 0
                then (let (t, s') = mtime_get s
                      in set_proc d ((proc_set s' d)\<lparr>first_schedule_time := t\<rparr>) s')
                else s);
          (t2, s2) = mtime_get s1;
          s3 = set_proc d ((proc_set s2 d)\<lparr>last_schedule_time := t2\<rparr>) s2;
          s4 = earth (if pid (proc_set s3 d) \<ge> GPID_USER_START K
                      then SET_MPP_USER else SET_MPP_MACHINE) s3;
          s5 = s4\<lparr>core_to_proc_idx := (core_to_proc_idx s4)(core_in_kernel s4 := d)\<rparr>;
          s6 = earth MMU_FLUSH_CACHE (earth (MMU_SWITCH (curr_pid s5)) s5)
      in (if curr_status s6 = PROC_READY
                then set_proc (curr_proc_idx s6)
                       ((proc_set s6 (curr_proc_idx s6))\<lparr>
                          saved_registers :=
                            (saved_registers (proc_set s6 (curr_proc_idx s6)))
                              [0 := APPS_ARG K, 1 := APPS_ARG K + 4],
                          mepc := APPS_ENTRY K\<rparr>) s6
                else s6))"
  have d: "proc_set (yield_dispatch K d s) = proc_set (proc_set_running (curr_pid s7) s7)"
    by (simp add: yield_dispatch_def s7_def Let_def split_def)
  have 7: "wakeup_time (proc_set s7 j) = wakeup_time (proc_set s j)"
    "status (proc_set s7 j) = status (proc_set s j)"
    "syscall (proc_set s7 j) = syscall (proc_set s j)"
    by (auto simp: s7_def mtime_get_def Let_def split_def)
  show "wakeup_time (proc_set (yield_dispatch K d s) j) = wakeup_time (proc_set s j)"
    "status (proc_set (yield_dispatch K d s) j) = status (proc_set s j)
      \<or> status (proc_set (yield_dispatch K d s) j) = PROC_RUNNING"
    "syscall (proc_set (yield_dispatch K d s) j) = syscall (proc_set s j)"
    using proc_set_running_pcb [of "curr_pid s7" s7 j] by (simp_all add: d 7)
qed

lemma yield_idle_simps [simp]:
  "proc_set (yield_idle s) = proc_set s"
  "curr_proc_idx (yield_idle s) = 0"
  "hal (yield_idle s) = hal s @ [TIMER_RESET (core_in_kernel s), SET_MIE, WFI]"
  by (simp_all add: yield_idle_def curr_proc_idx_def Let_def)

lemma mlfq_reset_level_pcb [simp]:
  "wakeup_time (proc_set (mlfq_reset_level K s) j) = wakeup_time (proc_set s j)"
  "status (proc_set (mlfq_reset_level K s) j) = status (proc_set s j)"
  "syscall (proc_set (mlfq_reset_level K s) j) = syscall (proc_set s j)"
  "pid (proc_set (mlfq_reset_level K s) j) = pid (proc_set s j)"
  by (auto simp: mlfq_reset_level_def mtime_get_def Let_def reset_queue_def
      split: option.splits)

lemma wakeup_time_proc_set_runnable [simp]:
  "wakeup_time (proc_set (proc_set_runnable p s) j) = wakeup_time (proc_set s j)"
  by (cases "find_pid s p"; cases "j = the (find_pid s p)")
     (auto simp: proc_set_runnable_def Let_def account_runtime_same account_runtime_other)

lemma yield_prepare_pcb:
  assumes "yield_prepare K s = (now, s3)"
  shows "wakeup_time (proc_set s3 j) = wakeup_time (proc_set s j)"
    and "status (proc_set s3 j) = status (proc_set s j) \<or> status (proc_set s3 j) = PROC_RUNNABLE"
    and "syscall (proc_set s3 j) = syscall (proc_set s j)"
  using assms
  by (auto simp: yield_prepare_def mtime_get_def Let_def status_proc_set_runnable
      split: if_splits)

lemma second_pass_first:
  assumes "second_pass K now is n s = Inr (d, s')" and "sorted_wrt (<) is"
  shows "(d = n \<and> (\<forall>j\<in>set is. \<not> awake now (proc_set s j)))
       \<or> (d \<in> set is \<and> awake now (proc_set s' d)
          \<and> (\<forall>j\<in>set is. j < d \<longrightarrow> \<not> awake now (proc_set s j)))"
proof -
  have "j \<in> set (takeWhile (\<lambda>k. k \<noteq> d) is)" if "j \<in> set is" "j < d" "d \<in> set is" for j
    using that assms(2)
  proof (induction "is")
    case Nil
    then show ?case by simp
  next
    case (Cons i "is")
    then show ?case by (cases "i = d") auto
  qed
  with second_pass_choice [OF assms(1)] show ?thesis by blast
qed

lemma second_pass_scan_rel: "second_pass K now is n s = Inr (d, s') \<Longrightarrow> scan_rel now s s'"
  by (blast dest: second_pass_choice)

lemma recv_waiting_scan_rel:
  "scan_rel now s s' \<Longrightarrow> \<not> recv_waiting (proc_set s k) \<Longrightarrow> \<not> recv_waiting (proc_set s' k)"
  unfolding scan_rel_def pcb_step_def recv_waiting_def by (metis proc_status.distinct(29))

lemma wakeup_zero_scan_rel:
  "scan_rel now s s' \<Longrightarrow> wakeup_time (proc_set s j) = 0 \<Longrightarrow> wakeup_time (proc_set s' j) = 0"
  unfolding scan_rel_def pcb_step_def by (metis less_irrefl)

lemma sleeping_scan_rel:
  "scan_rel now s s' \<Longrightarrow> sleeping now (proc_set s j)
     \<Longrightarrow> wakeup_time (proc_set s' j) = wakeup_time (proc_set s j)"
  unfolding scan_rel_def pcb_step_def sleeping_def by (metis not_le)

lemma proc_try_send_pcb:
  assumes "proc_try_send K i s = Inr s'"
  shows "status (proc_set s' j) = status (proc_set s j)"
    and "wakeup_time (proc_set s' j) = wakeup_time (proc_set s j)"
  using assms unfolding proc_try_send_def Let_def
  by (auto split: option.splits if_splits)

lemma wake_and_try_overdue:
  assumes "overdue now (proc_set s i)" and "wake_and_try K now i s = Inr s1"
  shows "wakeup_time (proc_set s1 i) = 0"
  using assms unfolding wake_and_try_def overdue_def Let_def by auto

lemma wake_and_try_other:
  assumes "\<not> recv_waiting (proc_set s i)" and "wake_and_try K now i s = Inr s1" and "j \<noteq> i"
  shows "status (proc_set s1 j) = status (proc_set s j)"
    and "wakeup_time (proc_set s1 j) = wakeup_time (proc_set s j)"
proof -
  define s0 where "s0 = (if status (proc_set s i) = PROC_PENDING_SYSCALL
      \<and> wakeup_time (proc_set s i) > 0 \<and> now \<ge> wakeup_time (proc_set s i)
    then set_proc i ((proc_set s i)\<lparr>wakeup_time := 0, status := PROC_RUNNABLE\<rparr>) s else s)"
  have 0: "status (proc_set s0 j) = status (proc_set s j)"
    "wakeup_time (proc_set s0 j) = wakeup_time (proc_set s j)"
    "stype (syscall (proc_set s0 i)) = stype (syscall (proc_set s i))"
    "status (proc_set s0 i) = PROC_PENDING_SYSCALL \<longrightarrow> status (proc_set s i) = PROC_PENDING_SYSCALL"
    using \<open>j \<noteq> i\<close> by (auto simp: s0_def)
  from assms(2) have "s1 = s0
      \<or> (status (proc_set s0 i) = PROC_PENDING_SYSCALL \<and> proc_try_syscall K i s0 = Inr s1)"
    unfolding wake_and_try_def Let_def s0_def by (auto split: if_splits)
  then have "s1 = s0 \<or> proc_try_send K i s0 = Inr s1"
    using assms(1) 0(3,4)
    by (auto simp: proc_try_syscall_def recv_waiting_def split: syscall_type.splits)
  then show "status (proc_set s1 j) = status (proc_set s j)"
    and "wakeup_time (proc_set s1 j) = wakeup_time (proc_set s j)"
    using 0(1,2) proc_try_send_pcb [of K i s0 s1 j] by auto
qed

lemma first_pass_wakes:
  assumes "first_pass K now is n m s = Inr (d, s')" and "sorted_wrt (<) is" and "j \<in> set is"
    and "overdue now (proc_set s j)"
    and "\<forall>k\<in>set is. k < j \<longrightarrow> \<not> recv_waiting (proc_set s k)"
  shows "wakeup_time (proc_set s' j) = 0"
  using assms
proof (induction "is" arbitrary: n m s)
  case Nil
  then show ?case by simp
next
  case (Cons i "is")
  from Cons.prems(1) obtain s1 n' m' where
    w: "wake_and_try K now i s = Inr s1" and f: "first_pass K now is n' m' s1 = Inr (d, s')"
    by (cases rule: first_pass_Cons_cases) blast+
  from Cons.prems(2) have sorted: "sorted_wrt (<) is" and above: "\<forall>k\<in>set is. i < k"
    by auto
  show ?case
  proof (cases "i = j")
    case True
    with Cons.prems(4) w have "wakeup_time (proc_set s1 j) = 0"
      by (auto dest: wake_and_try_overdue)
    with first_pass_scan_rel [OF f] show ?thesis
      by (rule wakeup_zero_scan_rel)
  next
    case False
    with Cons.prems(3) above have jin: "j \<in> set is" and "i < j" by auto
    with Cons.prems(5) have nr: "\<not> recv_waiting (proc_set s i)" by simp
    from wake_and_try_other [OF nr w, of j] False Cons.prems(4)
    have od: "overdue now (proc_set s1 j)"
      by (simp add: overdue_def)
    have "\<forall>k\<in>set is. k < j \<longrightarrow> \<not> recv_waiting (proc_set s1 k)"
      using Cons.prems(5) scan_rel_wake_and_try [OF w]
      by (auto dest: recv_waiting_scan_rel)
    from Cons.IH [OF f sorted jin od this] show ?thesis .
  qed
qed

lemma sorted_yield_slots: "sorted_wrt (<) [1..<Suc MAX_NPROCESS]"
  by (rule sorted_wrt_upt)

lemma in_yield_slots: "j \<in> set [1..<Suc MAX_NPROCESS] \<longleftrightarrow> 1 \<le> j \<and> j \<le> MAX_NPROCESS"
  by (auto simp del: upt_Suc)

lemma yield_select_split:
  assumes "yield_select K s = Inr (d, s5)" and "yield_prepare K s = (now, s3)"
  obtains d1 s4 where
    "first_pass K now [1..<Suc MAX_NPROCESS] MAX_NPROCESS MLFQ_LEVELS s3 = Inr (d1, s4)"
    "(d1 \<noteq> MAX_NPROCESS \<and> d = d1 \<and> s5 = s4)
     \<or> (d1 = MAX_NPROCESS
        \<and> second_pass K now [1..<Suc MAX_NPROCESS] MAX_NPROCESS s4 = Inr (d, s5))"
  using assms unfolding yield_select_def
  by (auto split: sum.splits if_splits)

lemma yield_select_facts:
  assumes "yield_select K s = Inr (d, s5)" and "yield_prepare K s = (now, s3)"
  shows "scan_rel now s3 s5"
    and "d < MAX_NPROCESS \<Longrightarrow> 1 \<le> d \<and> awake now (proc_set s5 d)"
    and "1 \<le> j \<Longrightarrow> j \<le> MAX_NPROCESS \<Longrightarrow> \<not> overdue now (proc_set s5 j)"
    and "\<not> d < MAX_NPROCESS \<Longrightarrow> 1 \<le> j \<Longrightarrow> j < MAX_NPROCESS \<Longrightarrow> \<not> awake now (proc_set s3 j)"
proof -
  from assms obtain d1 s4 where
    fp: "first_pass K now [1..<Suc MAX_NPROCESS] MAX_NPROCESS MLFQ_LEVELS s3 = Inr (d1, s4)"
    and sp: "(d1 \<noteq> MAX_NPROCESS \<and> d = d1 \<and> s5 = s4)
     \<or> (d1 = MAX_NPROCESS
        \<and> second_pass K now [1..<Suc MAX_NPROCESS] MAX_NPROCESS s4 = Inr (d, s5))"
    by (rule yield_select_split)
  have r34: "scan_rel now s3 s4" using fp by (rule first_pass_scan_rel)
  have r45: "scan_rel now s4 s5" using sp by (auto dest: second_pass_scan_rel)
  show r: "scan_rel now s3 s5" using r34 r45 by (rule scan_rel_trans)
  have ch: "(d1 = MAX_NPROCESS
      \<and> (\<forall>j\<in>set [1..<Suc MAX_NPROCESS]. \<not> competes now MLFQ_LEVELS (proc_set s3 j)))
     \<or> chosen now MLFQ_LEVELS [1..<Suc MAX_NPROCESS] s3 d1 s4"
    using fp sorted_yield_slots by (rule first_pass_choice)
  show "1 \<le> d \<and> awake now (proc_set s5 d)" if "d < MAX_NPROCESS"
    using sp
  proof
    assume a: "d1 \<noteq> MAX_NPROCESS \<and> d = d1 \<and> s5 = s4"
    with ch have "chosen now MLFQ_LEVELS [1..<Suc MAX_NPROCESS] s3 d s5" by simp
    then show ?thesis by (auto simp: chosen_def eligible_awake in_yield_slots simp del: upt_Suc)
  next
    assume a: "d1 = MAX_NPROCESS
        \<and> second_pass K now [1..<Suc MAX_NPROCESS] MAX_NPROCESS s4 = Inr (d, s5)"
    with second_pass_first [OF _ sorted_yield_slots, of K now MAX_NPROCESS s4 d s5] that
    show ?thesis by (auto simp: in_yield_slots simp del: upt_Suc)
  qed
  show "\<not> overdue now (proc_set s5 j)" if "1 \<le> j" "j \<le> MAX_NPROCESS"
  proof -
    from that have "j \<in> set [1..<Suc MAX_NPROCESS]" by (simp add: in_yield_slots del: upt_Suc)
    with fp have "\<not> overdue now (proc_set s4 j)" by (rule first_pass_not_overdue)
    with r45 show ?thesis by (rule not_overdue_scan_rel)
  qed
  show "\<not> awake now (proc_set s3 j)" if nd: "\<not> d < MAX_NPROCESS" and j: "1 \<le> j" "j < MAX_NPROCESS"
  proof -
    from j have jin: "j \<in> set [1..<Suc MAX_NPROCESS]" by (simp add: in_yield_slots del: upt_Suc)
    from sp nd ch have sp': "second_pass K now [1..<Suc MAX_NPROCESS] MAX_NPROCESS s4 = Inr (d, s5)"
      by (auto simp: chosen_def in_yield_slots simp del: upt_Suc)
    from second_pass_first [OF sp' sorted_yield_slots] nd j jin
    have "\<not> awake now (proc_set s4 j)"
      by (cases "d = MAX_NPROCESS") (auto simp: in_yield_slots simp del: upt_Suc)
    with r34 show ?thesis by (blast dest: awake_scan_rel)
  qed
qed

lemma proc_yield_idle_only_if:
  assumes "yield_select K s = Inr (d, s5)" and "\<not> d < MAX_NPROCESS"
    and "yield_prepare K s = (now, s3)" and "1 \<le> j" and "j < MAX_NPROCESS"
  shows "proc_yield K s = Inr (yield_idle s5)" and "\<not> awake now (proc_set s3 j)"
  using assms yield_select_facts(4) [OF assms(1,3,2,4,5)]
  by (simp_all add: proc_yield_def)

lemma find_upt_Some:
  "find Q [0..<n] = Some i \<longleftrightarrow> i < n \<and> Q i \<and> (\<forall>j<i. \<not> Q j)"
  by (auto simp: find_Some_iff)

lemma status_proc_set_running:
  "status (proc_set (proc_set_running p s) j) =
     (if find_pid s p = Some j then PROC_RUNNING else status (proc_set s j))"
  by (auto simp: proc_set_running_def mtime_get_def Let_def split: option.splits)

lemma pid_proc_set_running [simp]:
  "pid (proc_set (proc_set_running p s) j) = pid (proc_set s j)"
  by (auto simp: proc_set_running_def mtime_get_def Let_def find_pid_Some split: option.splits)

lemma status_yield_dispatch:
  "status (proc_set (yield_dispatch K d st) j) =
     (if find_pid st (pid (proc_set st d)) = Some j then PROC_RUNNING
      else status (proc_set st j))"
  and pid_yield_dispatch: "pid (proc_set (yield_dispatch K d st) j) = pid (proc_set st j)"
proof -
  define s7 where "s7 = (let s1 = (if first_schedule_time (proc_set st d) = 0
                then (let (t, s') = mtime_get st
                      in set_proc d ((proc_set s' d)\<lparr>first_schedule_time := t\<rparr>) s')
                else st);
          (t2, s2) = mtime_get s1;
          s3 = set_proc d ((proc_set s2 d)\<lparr>last_schedule_time := t2\<rparr>) s2;
          s4 = earth (if pid (proc_set s3 d) \<ge> GPID_USER_START K
                      then SET_MPP_USER else SET_MPP_MACHINE) s3;
          s5 = s4\<lparr>core_to_proc_idx := (core_to_proc_idx s4)(core_in_kernel s4 := d)\<rparr>;
          s6 = earth MMU_FLUSH_CACHE (earth (MMU_SWITCH (curr_pid s5)) s5)
      in (if curr_status s6 = PROC_READY
                then set_proc (curr_proc_idx s6)
                       ((proc_set s6 (curr_proc_idx s6))\<lparr>
                          saved_registers :=
                            (saved_registers (proc_set s6 (curr_proc_idx s6)))
                              [0 := APPS_ARG K, 1 := APPS_ARG K + 4],
                          mepc := APPS_ENTRY K\<rparr>) s6
                else s6))"
  have d: "proc_set (yield_dispatch K d st) = proc_set (proc_set_running (curr_pid s7) s7)"
    by (simp add: yield_dispatch_def s7_def Let_def split_def)
  have 7: "status (proc_set s7 j) = status (proc_set st j)"
    "pid (proc_set s7 j) = pid (proc_set st j)" for j
    by (auto simp: s7_def mtime_get_def Let_def split_def)
  have c: "curr_pid s7 = pid (proc_set st d)"
    by (auto simp: s7_def mtime_get_def Let_def split_def curr_pid_def curr_proc_idx_def)
  have f: "find_pid s7 p = find_pid st p" for p
    unfolding find_pid_def by (rule find_cong) (simp_all add: 7)
  show "status (proc_set (yield_dispatch K d st) j) =
     (if find_pid st (pid (proc_set st d)) = Some j then PROC_RUNNING
      else status (proc_set st j))"
    by (simp add: d status_proc_set_running c f 7)
  show "pid (proc_set (yield_dispatch K d st) j) = pid (proc_set st j)"
    by (simp add: d 7)
qed

section \<open>Evaluating the loops on concrete tables\<close>

lemma wake_and_try_not_pending:
  "status (proc_set s i) \<noteq> PROC_PENDING_SYSCALL \<Longrightarrow> wake_and_try K now i s = Inr s"
  by (simp add: wake_and_try_def)

lemma first_pass_skip:
  "status (proc_set s i) \<noteq> PROC_PENDING_SYSCALL \<Longrightarrow> \<not> schedulable (proc_set s i)
    \<Longrightarrow> first_pass K now (i # is) n m s = first_pass K now is n m s"
  by (simp add: wake_and_try_not_pending Let_def)

lemma first_pass_schedulable:
  "schedulable (proc_set s i)
    \<Longrightarrow> first_pass K now (i # is) n m s =
         (if \<not> sleeping now (proc_set s i) \<and> queue_level (proc_set s i) < m
          then first_pass K now is i (queue_level (proc_set s i)) s
          else first_pass K now is n m s)"
  by (auto simp: wake_and_try_not_pending schedulable_def Let_def)

lemma first_pass_pending:
  "wake_and_try K now i s = Inr s1
    \<Longrightarrow> first_pass K now (i # is) n m s =
         (if \<not> sleeping now (proc_set s1 i) \<and> schedulable (proc_set s1 i)
               \<and> queue_level (proc_set s1 i) < m
          then first_pass K now is i (queue_level (proc_set s1 i)) s1
          else first_pass K now is n m s1)"
  by (auto simp: Let_def)

lemma second_pass_skip:
  "status (proc_set s i) \<noteq> PROC_PENDING_SYSCALL \<Longrightarrow> \<not> schedulable (proc_set s i)
    \<Longrightarrow> second_pass K now (i # is) n s = second_pass K now is n s"
  by (simp add: Let_def)

lemma second_pass_schedulable:
  "schedulable (proc_set s i)
    \<Longrightarrow> second_pass K now (i # is) n s =
         (if sleeping now (proc_set s i) then second_pass K now is n s else Inr (i, s))"
  by (auto simp: schedulable_def Let_def)

lemma proc_zero_simps [simp]:
  "status proc_zero = PROC_UNUSED" "pid proc_zero = 0" "wakeup_time proc_zero = 0"
  "queue_level proc_zero = 0"
  by (simp_all add: proc_zero_def)

lemma schedulable_simps [simp]:
  "schedulable (p\<lparr>status := st\<rparr>) \<longleftrightarrow> st = PROC_READY \<or> st = PROC_RUNNABLE"
  "\<not> schedulable proc_zero"
  by (simp_all add: schedulable_def)

lemma prepare_two_ready: "yield_prepare egos two_ready = (5000, two_ready\<lparr>mtime_reads := 2\<rparr>)"
  unfolding yield_prepare_def mlfq_reset_level_def
  by (simp add: two_ready_def kstate_zero_def proc_zero_def curr_status_def curr_proc_idx_def
      mtime_get_def MLFQ_RESET_PERIOD_def)

lemma first_pass_two_ready:
  "first_pass egos 5000 [1..<Suc MAX_NPROCESS] MAX_NPROCESS MLFQ_LEVELS (two_ready\<lparr>mtime_reads := 2\<rparr>)
     = Inr (7, two_ready\<lparr>mtime_reads := 2\<rparr>)"
  unfolding yield_slots
  by (simp add: two_ready_def kstate_zero_def proc_zero_def wake_and_try_def sleeping_def
      schedulable_def MAX_NPROCESS_def MLFQ_LEVELS_def)

lemma asleep_simps [simp]:
  "proc_set (asleep st w r h c) i = (if i = 1 then sleeper st w else proc_zero)"
  "mtime_reads (asleep st w r h c) = r"
  "mtime (asleep st w r h c) k = (if k = 0 then 1000 else if k \<le> 2 then 1050 else 1200)"
  "MLFQ_last_reset_time (asleep st w r h c) = 0"
  "tty_input_empty (asleep st w r h c)"
  "core_in_kernel (asleep st w r h c) = 0"
  "core_to_proc_idx (asleep st w r h c) k = (if k = 0 then c else 0)"
  by (simp_all add: asleep_def before_sleep_def kstate_zero_def)

lemma sleeper_simps [simp]:
  "status (sleeper st w) = st" "wakeup_time (sleeper st w) = w" "pid (sleeper st w) = 1"
  "queue_level (sleeper st w) = 0" "syscall (sleeper st w) = recv_done"
  "schedulable (sleeper st w) \<longleftrightarrow> st = PROC_READY \<or> st = PROC_RUNNABLE"
  by (simp_all add: sleeper_def schedulable_def)

lemma after_sleep_eq: "after_sleep = asleep PROC_PENDING_SYSCALL 1100 1 [] 1"
  unfolding after_sleep_def proc_sleep_def scan_slots
  by (simp add: asleep_def before_sleep_def kstate_zero_def sleeper_def proc_zero_def
      mtime_get_def set_proc_def)

lemma prepare_asleep:
  "(c = 1 \<longrightarrow> st \<noteq> PROC_RUNNING) \<Longrightarrow> yield_prepare egos (asleep st w r h c)
      = (if r = 0 \<or> r = 1 then 1050 else 1200, asleep st w (r + 2) h c)"
  unfolding yield_prepare_def mlfq_reset_level_def
  by (auto simp: curr_status_def curr_proc_idx_def mtime_get_def MLFQ_RESET_PERIOD_def Let_def)
     (auto simp: asleep_def)

lemma try_recv_asleep:
  "proc_try_recv 1 (asleep PROC_PENDING_SYSCALL 1100 r h c)
     = asleep PROC_RUNNABLE 1100 r (h @ [MMU_COPY_OUT 1 recv_done]) c"
  unfolding proc_try_recv_def proc_set_runnable_def find_pid_def scan_slots account_runtime_def
  by (simp add: recv_done_def)
     (simp add: asleep_def before_sleep_def kstate_zero_def sleeper_def proc_zero_def
        set_proc_def earth_def recv_done_def)

lemma wake_and_try_asleep:
  "wake_and_try egos 1050 1 (asleep PROC_PENDING_SYSCALL 1100 r h c)
     = Inr (asleep PROC_RUNNABLE 1100 r (h @ [MMU_COPY_OUT 1 recv_done]) c)"
  unfolding wake_and_try_def proc_try_syscall_def
  by (simp add: try_recv_asleep recv_done_def del: One_nat_def)

lemma first_pass_asleep:
  "first_pass egos 1050 [1..<Suc MAX_NPROCESS] MAX_NPROCESS MLFQ_LEVELS
      (asleep PROC_PENDING_SYSCALL 1100 r h c)
     = Inr (MAX_NPROCESS, asleep PROC_RUNNABLE 1100 r (h @ [MMU_COPY_OUT 1 recv_done]) c)"
  unfolding yield_slots
  by (simp add: first_pass_pending [OF wake_and_try_asleep] first_pass_skip sleeping_def
      del: first_pass.simps(2) One_nat_def)

lemma second_pass_asleep:
  "second_pass egos 1050 [1..<Suc MAX_NPROCESS] MAX_NPROCESS (asleep PROC_RUNNABLE 1100 r h c)
     = Inr (MAX_NPROCESS, asleep PROC_RUNNABLE 1100 r h c)"
  unfolding yield_slots
  by (simp add: second_pass_schedulable second_pass_skip sleeping_def
      del: second_pass.simps(2) One_nat_def)

lemma yield_idle_asleep:
  "yield_idle (asleep st w r h c) = asleep st w r (h @ [TIMER_RESET 0, SET_MIE, WFI]) 0"
  by (simp add: yield_idle_def asleep_def before_sleep_def kstate_zero_def earth_def)

lemma first_yield_asleep:
  "proc_yield egos after_sleep
     = Inr (asleep PROC_RUNNABLE 1100 3 [MMU_COPY_OUT 1 recv_done, TIMER_RESET 0, SET_MIE, WFI] 0)"
  by (simp add: proc_yield_def yield_select_def after_sleep_eq prepare_asleep first_pass_asleep
      second_pass_asleep yield_idle_asleep del: upt_Suc One_nat_def)

lemma first_pass_awake:
  "first_pass egos 1200 [1..<Suc MAX_NPROCESS] MAX_NPROCESS MLFQ_LEVELS
      (asleep PROC_RUNNABLE w r h c)
     = Inr (1, asleep PROC_RUNNABLE w r h c)" if "w \<le> 1200"
  unfolding yield_slots
  using that
  by (simp add: first_pass_schedulable first_pass_skip sleeping_def MLFQ_LEVELS_def not_less
      del: first_pass.simps(2) One_nat_def)

lemma second_yield_asleep:
  "w \<le> 1200 \<Longrightarrow> proc_yield egos (asleep PROC_RUNNABLE w 3 h 0)
     = Inr (yield_dispatch egos 1 (asleep PROC_RUNNABLE w 5 h 0))"
  by (simp add: proc_yield_def yield_select_def prepare_asleep first_pass_awake
      del: upt_Suc One_nat_def)
     (simp add: MAX_NPROCESS_def)

lemma wake_and_try_overslept:
  "wake_and_try egos 1200 1 (asleep PROC_PENDING_SYSCALL 1100 r h c)
     = Inr (asleep PROC_RUNNABLE 0 r h c)"
  unfolding wake_and_try_def
  by (simp del: One_nat_def)
     (simp add: asleep_def before_sleep_def kstate_zero_def sleeper_def proc_zero_def
        set_proc_def)

lemma first_pass_overslept:
  "first_pass egos 1200 [1..<Suc MAX_NPROCESS] MAX_NPROCESS MLFQ_LEVELS
      (asleep PROC_PENDING_SYSCALL 1100 r h c)
     = Inr (1, asleep PROC_RUNNABLE 0 r h c)"
  unfolding yield_slots
  by (simp add: first_pass_pending [OF wake_and_try_overslept] first_pass_skip sleeping_def
      MLFQ_LEVELS_def del: first_pass.simps(2) One_nat_def)

lemma yield_overslept:
  "proc_yield egos (asleep PROC_PENDING_SYSCALL 1100 3 h 0)
     = Inr (yield_dispatch egos 1 (asleep PROC_RUNNABLE 0 5 h 0))"
  by (simp add: proc_yield_def yield_select_def prepare_asleep first_pass_overslept
      del: upt_Suc One_nat_def)
     (simp add: MAX_NPROCESS_def)

lemma prepare_after_sleep:
  "yield_prepare egos after_sleep = (1050, asleep PROC_PENDING_SYSCALL 1100 3 [] 1)"
  by (simp add: after_sleep_eq prepare_asleep del: One_nat_def)

lemma prepare_overslept:
  "yield_prepare egos (asleep PROC_PENDING_SYSCALL 1100 3 [] 0)
     = (1200, asleep PROC_PENDING_SYSCALL 1100 5 [] 0)"
  by (simp add: prepare_asleep)

lemma rendezvous_simps [simp]:
  "proc_set (rendezvous ss rs rsc r h) i =
     (if i = 5 then proc_zero\<lparr>pid := 5, syscall := rsc, status := rs, queue_level := 1\<rparr>
      else if i = 2 then proc_zero\<lparr>pid := 2, syscall := send_hi, status := ss\<rparr>
      else proc_zero)"
  "mtime_reads (rendezvous ss rs rsc r h) = r"
  "mtime (rendezvous ss rs rsc r h) k = 5000"
  "MLFQ_last_reset_time (rendezvous ss rs rsc r h) = 0"
  "tty_input_empty (rendezvous ss rs rsc r h)"
  "core_in_kernel (rendezvous ss rs rsc r h) = 0"
  "core_to_proc_idx (rendezvous ss rs rsc r h) k = (if k = 0 then 5 else 0)"
  by (simp_all add: rendezvous_def kstate_zero_def)

lemmas rendezvous_defs = rendezvous_def kstate_zero_def proc_zero_def send_hi_def recv_any_def
  recv_hi_def set_proc_def earth_def egos_def memcpy_def

lemma syscall_examples [simp]:
  "stype send_hi = SYS_SEND" "receiver send_hi = 5" "sstatus send_hi = PENDING"
  "stype recv_any = SYS_RECV" "sender recv_any = -1" "sstatus recv_any = PENDING"
  "stype recv_hi = SYS_RECV" "sender recv_hi = 2" "sstatus recv_hi = DONE"
  by (simp_all add: send_hi_def recv_any_def recv_hi_def)

lemma prepare_rendezvous:
  "rs \<noteq> PROC_RUNNING \<Longrightarrow> yield_prepare egos (rendezvous ss rs rsc 0 h)
      = (5000, rendezvous ss rs rsc 2 h)"
  unfolding yield_prepare_def mlfq_reset_level_def
  by (auto simp: curr_status_def curr_proc_idx_def mtime_get_def MLFQ_RESET_PERIOD_def Let_def)
     (auto simp: rendezvous_def)

lemma try_send_rendezvous:
  "proc_try_send egos 2 (rendezvous ss PROC_PENDING_SYSCALL recv_any r h)
     = Inr (rendezvous ss PROC_PENDING_SYSCALL recv_hi r h)"
  unfolding proc_try_send_def scan_slots
  by (simp add: send_hi_def recv_any_def egos_def del: One_nat_def)
     (simp add: rendezvous_defs fun_eq_iff)

lemma try_recv_rendezvous:
  "proc_try_recv 5 (rendezvous PROC_PENDING_SYSCALL PROC_PENDING_SYSCALL recv_hi r h)
     = rendezvous PROC_RUNNABLE PROC_RUNNABLE recv_hi r (h @ [MMU_COPY_OUT 5 recv_hi])"
  unfolding proc_try_recv_def proc_set_runnable_def find_pid_def scan_slots account_runtime_def
  by (simp add: recv_hi_def del: One_nat_def)
     (simp add: rendezvous_defs fun_eq_iff)

lemma wake_and_try_sender:
  "wake_and_try egos 5000 2 (rendezvous PROC_PENDING_SYSCALL PROC_PENDING_SYSCALL recv_any r h)
     = Inr (rendezvous PROC_PENDING_SYSCALL PROC_PENDING_SYSCALL recv_hi r h)"
  unfolding wake_and_try_def proc_try_syscall_def
  by (simp add: try_send_rendezvous del: One_nat_def)

lemma wake_and_try_receiver:
  "wake_and_try egos 5000 5 (rendezvous PROC_PENDING_SYSCALL PROC_PENDING_SYSCALL recv_hi r h)
     = Inr (rendezvous PROC_RUNNABLE PROC_RUNNABLE recv_hi r (h @ [MMU_COPY_OUT 5 recv_hi]))"
  unfolding wake_and_try_def proc_try_syscall_def
  by (simp add: try_recv_rendezvous del: One_nat_def)

lemma first_pass_late_sender:
  "first_pass egos 5000 [1..<Suc MAX_NPROCESS] MAX_NPROCESS MLFQ_LEVELS
      (rendezvous PROC_PENDING_SYSCALL PROC_PENDING_SYSCALL recv_any r h)
     = Inr (5, rendezvous PROC_RUNNABLE PROC_RUNNABLE recv_hi r (h @ [MMU_COPY_OUT 5 recv_hi]))"
  unfolding yield_slots
  by (simp add: first_pass_pending [OF wake_and_try_sender]
      first_pass_pending [OF wake_and_try_receiver] first_pass_skip first_pass_schedulable
      sleeping_def schedulable_def MLFQ_LEVELS_def MAX_NPROCESS_def
      del: first_pass.simps(2) One_nat_def)

section \<open>The table after the loops\<close>

lemma ipc_rel_refl [simp]: "ipc_rel s s"
  by (simp add: ipc_rel_def)

lemma ipc_rel_find_pid: "ipc_rel s s' \<Longrightarrow> find_pid s' p = find_pid s p"
  unfolding find_pid_def by (rule find_cong) (simp_all add: ipc_rel_def)

lemma ipc_rel_trans:
  assumes "ipc_rel s s1" and "ipc_rel s1 s2"
  shows "ipc_rel s s2"
  unfolding ipc_rel_def
proof (intro allI)
  fix j
  from assms(1) have a: "pid (proc_set s1 j) = pid (proc_set s j)"
    "stype (syscall (proc_set s1 j)) = stype (syscall (proc_set s j))"
    "receiver (syscall (proc_set s1 j)) = receiver (syscall (proc_set s j))"
    "syscall (proc_set s1 j) = syscall (proc_set s j)
        \<or> (sstatus (syscall (proc_set s j)) = PENDING \<and> sstatus (syscall (proc_set s1 j)) = DONE)"
    "status (proc_set s1 j) = status (proc_set s j)
        \<or> (status (proc_set s1 j) = PROC_RUNNABLE
           \<and> (status (proc_set s j) = PROC_PENDING_SYSCALL
              \<or> find_pid s (pid (proc_set s j)) = Some j))"
    by (simp_all add: ipc_rel_def)
  from assms(2) have b: "pid (proc_set s2 j) = pid (proc_set s1 j)"
    "stype (syscall (proc_set s2 j)) = stype (syscall (proc_set s1 j))"
    "receiver (syscall (proc_set s2 j)) = receiver (syscall (proc_set s1 j))"
    "syscall (proc_set s2 j) = syscall (proc_set s1 j)
        \<or> (sstatus (syscall (proc_set s1 j)) = PENDING \<and> sstatus (syscall (proc_set s2 j)) = DONE)"
    "status (proc_set s2 j) = status (proc_set s1 j)
        \<or> (status (proc_set s2 j) = PROC_RUNNABLE
           \<and> (status (proc_set s1 j) = PROC_PENDING_SYSCALL
              \<or> find_pid s1 (pid (proc_set s1 j)) = Some j))"
    by (simp_all add: ipc_rel_def)
  note f = ipc_rel_find_pid [OF assms(1)]
  show "pid (proc_set s2 j) = pid (proc_set s j)
     \<and> stype (syscall (proc_set s2 j)) = stype (syscall (proc_set s j))
     \<and> receiver (syscall (proc_set s2 j)) = receiver (syscall (proc_set s j))
     \<and> (syscall (proc_set s2 j) = syscall (proc_set s j)
        \<or> (sstatus (syscall (proc_set s j)) = PENDING \<and> sstatus (syscall (proc_set s2 j)) = DONE))
     \<and> (status (proc_set s2 j) = status (proc_set s j)
        \<or> (status (proc_set s2 j) = PROC_RUNNABLE
           \<and> (status (proc_set s j) = PROC_PENDING_SYSCALL
              \<or> find_pid s (pid (proc_set s j)) = Some j)))"
    using a b unfolding f by (cases "sstatus (syscall (proc_set s j))") auto
qed

lemma ipc_rel_earth [simp]: "ipc_rel s (earth e s)"
  by (simp add: ipc_rel_def)

lemma ipc_rel_proc_set_runnable [simp]: "ipc_rel s (proc_set_runnable p s)"
  by (auto simp: ipc_rel_def status_proc_set_runnable find_pid_Some)

lemma ipc_rel_proc_try_recv: "ipc_rel s (proc_try_recv r s)"
  unfolding proc_try_recv_def Let_def
  by (auto intro: ipc_rel_trans [OF ipc_rel_earth]
        ipc_rel_trans [OF ipc_rel_proc_set_runnable ipc_rel_proc_set_runnable])

lemma ipc_rel_proc_try_send: "proc_try_send K i s = Inr s' \<Longrightarrow> ipc_rel s s'"
  unfolding proc_try_send_def Let_def
  by (auto split: option.splits if_splits simp: ipc_rel_def)

lemma ipc_rel_proc_try_syscall: "proc_try_syscall K i s = Inr s' \<Longrightarrow> ipc_rel s s'"
  unfolding proc_try_syscall_def
  by (auto split: syscall_type.splits intro: ipc_rel_proc_try_recv ipc_rel_proc_try_send)

lemma ipc_rel_wake_and_try: "wake_and_try K now i s = Inr s' \<Longrightarrow> ipc_rel s s'"
proof -
  assume a: "wake_and_try K now i s = Inr s'"
  define s1 where "s1 = (if status (proc_set s i) = PROC_PENDING_SYSCALL
        \<and> wakeup_time (proc_set s i) > 0 \<and> now \<ge> wakeup_time (proc_set s i)
      then set_proc i ((proc_set s i)\<lparr>wakeup_time := 0, status := PROC_RUNNABLE\<rparr>) s else s)"
  have 1: "ipc_rel s s1"
    by (auto simp: s1_def ipc_rel_def)
  from a have "s' = s1 \<or> proc_try_syscall K i s1 = Inr s'"
    unfolding wake_and_try_def Let_def s1_def by (auto split: if_splits)
  with 1 show ?thesis
    by (auto intro: ipc_rel_trans ipc_rel_proc_try_syscall)
qed

lemma table_ok_iff:
  "table_ok s \<longleftrightarrow>
     (status (proc_set s MAX_NPROCESS) = PROC_UNUSED
      \<or> status (proc_set s MAX_NPROCESS) = PROC_LOADING)
     \<and> (\<forall>i. i < MAX_NPROCESS \<and> status (proc_set s i) \<noteq> PROC_UNUSED
           \<longrightarrow> find_pid s (pid (proc_set s i)) = Some i)"
  by (auto simp: table_ok_def)

lemma table_ok_rel:
  assumes "ipc_rel s s'" and "table_ok s"
  shows "table_ok s'"
proof -
  note f = ipc_rel_find_pid [OF assms(1)]
  have st: "status (proc_set s' j) = status (proc_set s j)
        \<or> (status (proc_set s' j) = PROC_RUNNABLE
           \<and> (status (proc_set s j) = PROC_PENDING_SYSCALL
              \<or> find_pid s (pid (proc_set s j)) = Some j))"
    and p: "pid (proc_set s' j) = pid (proc_set s j)" for j
    using assms(1) by (simp_all add: ipc_rel_def)
  have "find_pid s (pid (proc_set s MAX_NPROCESS)) \<noteq> Some MAX_NPROCESS"
    by (simp add: find_pid_Some)
  with st [of MAX_NPROCESS] assms(2)
  have 1: "status (proc_set s' MAX_NPROCESS) = PROC_UNUSED
      \<or> status (proc_set s' MAX_NPROCESS) = PROC_LOADING"
    by (auto simp: table_ok_iff)
  have 2: "find_pid s' (pid (proc_set s' i)) = Some i"
    if "i < MAX_NPROCESS" "status (proc_set s' i) \<noteq> PROC_UNUSED" for i
    using st [of i] that assms(2) unfolding f p table_ok_iff by auto
  from 1 2 show ?thesis
    unfolding table_ok_iff by blast
qed

lemma stuck_rel:
  assumes "ipc_rel s s'" and "stuck K s v"
  shows "stuck K s' v"
proof -
  have r: "pid (proc_set s' j) = pid (proc_set s j)"
    "stype (syscall (proc_set s' j)) = stype (syscall (proc_set s j))"
    "receiver (syscall (proc_set s' j)) = receiver (syscall (proc_set s j))"
    "syscall (proc_set s' j) = syscall (proc_set s j)
        \<or> (sstatus (syscall (proc_set s j)) = PENDING \<and> sstatus (syscall (proc_set s' j)) = DONE)"
    "status (proc_set s' j) = PROC_PENDING_SYSCALL \<Longrightarrow> status (proc_set s j) = PROC_PENDING_SYSCALL"
    for j
    using assms(1) [unfolded ipc_rel_def, rule_format, of j] by auto
  have acc: "accepting K (proc_set s' d) (proc_set s' v) \<Longrightarrow> accepting K (proc_set s d) (proc_set s v)"
    for d
    using r(4) [of d] r(1) [of v] by (auto simp: accepting_def)
  show ?thesis
    using assms(2) unfolding stuck_def
    by (auto simp: r dest!: acc dest: r(5))
qed

lemma ripe_rel:
  assumes "ipc_rel s s'" and "ripe (proc_set s j)"
  shows "syscall (proc_set s' j) = syscall (proc_set s j)"
  using assms by (auto simp: ipc_rel_def ripe_def)

lemma fwd_rel:
  assumes "ipc_rel s s'" and "ripe (proc_set s j)" and "fwd s j"
  shows "fwd s' j"
  using assms(3) unfolding fwd_def ipc_rel_find_pid [OF assms(1)] ripe_rel [OF assms(1,2)] .

lemma proc_try_recv_pcb:
  "pid (proc_set (proc_try_recv i s) j) = pid (proc_set s j)"
  "syscall (proc_set (proc_try_recv i s) j) = syscall (proc_set s j)"
  "wakeup_time (proc_set (proc_try_recv i s) j) = wakeup_time (proc_set s j)"
  "status (proc_set (proc_try_recv i s) j) =
     (if sstatus (syscall (proc_set s i)) = DONE
         \<and> (find_pid s (pid (proc_set s i)) = Some j
            \<or> find_pid s (sender (syscall (proc_set s i))) = Some j)
      then PROC_RUNNABLE else status (proc_set s j))"
  by (cases "sstatus (syscall (proc_set s i))";
      simp add: proc_try_recv_def Let_def status_proc_set_runnable)+

lemma proc_try_send_found:
  assumes "proc_try_send K i s = Inr s'"
  obtains d where "d < MAX_NPROCESS"
    and "pid (proc_set s d) = receiver (syscall (proc_set s i))"
    and "status (proc_set s d) \<noteq> PROC_UNUSED"
    and "\<forall>j<d. \<not> (pid (proc_set s j) = receiver (syscall (proc_set s i))
                   \<and> status (proc_set s j) \<noteq> PROC_UNUSED)"
    and "\<not> accepting K (proc_set s d) (proc_set s i) \<longrightarrow> s' = s"
    and "accepting K (proc_set s d) (proc_set s i) \<longrightarrow>
           s' = set_proc d ((proc_set s d)\<lparr>syscall := (syscall (proc_set s d))\<lparr>
                  sstatus := DONE, sender := pid (proc_set s i),
                  content := memcpy (content (syscall (proc_set s d)))
                               (content (syscall (proc_set s i))) (SYSCALL_MSG_LEN K)\<rparr>\<rparr>) s"
proof -
  from assms obtain d where
    f: "find (\<lambda>j. pid (proc_set s j) = receiver (syscall (proc_set s i))
                         \<and> status (proc_set s j) \<noteq> PROC_UNUSED) [0..<MAX_NPROCESS] = Some d"
    unfolding proc_try_send_def Let_def by (auto split: option.splits)
  from assms f have
    "\<not> accepting K (proc_set s d) (proc_set s i) \<longrightarrow> s' = s"
    "accepting K (proc_set s d) (proc_set s i) \<longrightarrow>
           s' = set_proc d ((proc_set s d)\<lparr>syscall := (syscall (proc_set s d))\<lparr>
                  sstatus := DONE, sender := pid (proc_set s i),
                  content := memcpy (content (syscall (proc_set s d)))
                               (content (syscall (proc_set s i))) (SYSCALL_MSG_LEN K)\<rparr>\<rparr>) s"
    unfolding proc_try_send_def Let_def accepting_def by (auto split: if_splits)
  with f that show ?thesis
    unfolding find_upt_Some by blast
qed

lemma try_syscall_wakeup_time:
  "proc_try_syscall K i s = Inr s' \<Longrightarrow> wakeup_time (proc_set s' j) = wakeup_time (proc_set s j)"
  unfolding proc_try_syscall_def
  by (auto split: syscall_type.splits simp: proc_try_recv_pcb proc_try_send_pcb)

lemma try_syscall_status:
  assumes "proc_try_syscall K i s = Inr s'" and "status (proc_set s' j) \<noteq> status (proc_set s j)"
  shows "stype (syscall (proc_set s i)) = SYS_RECV \<and> sstatus (syscall (proc_set s i)) = DONE
    \<and> (find_pid s (pid (proc_set s i)) = Some j
       \<or> find_pid s (sender (syscall (proc_set s i))) = Some j)"
  using assms unfolding proc_try_syscall_def
  by (auto split: syscall_type.splits if_splits simp: proc_try_recv_pcb proc_try_send_pcb)

lemma try_syscall_new_ripe:
  assumes "proc_try_syscall K i s = Inr s'" and "ripe (proc_set s' j)" and "\<not> ripe (proc_set s j)"
  shows "stype (syscall (proc_set s i)) = SYS_SEND \<and> sender (syscall (proc_set s' j)) = pid (proc_set s i)
    \<and> j \<noteq> i \<and> j < MAX_NPROCESS \<and> pid (proc_set s j) = receiver (syscall (proc_set s i))
    \<and> accepting K (proc_set s j) (proc_set s i)"
proof (cases "stype (syscall (proc_set s i))")
  case SYS_UNUSED
  with assms(1) show ?thesis by (simp add: proc_try_syscall_def)
next
  case SYS_RECV
  with assms(1) have "s' = proc_try_recv i s" by (simp add: proc_try_syscall_def)
  with assms(2,3) show ?thesis
    by (auto simp: ripe_def proc_try_recv_pcb split: if_splits)
next
  case SYS_SEND
  with assms(1) have ts: "proc_try_send K i s = Inr s'" by (simp add: proc_try_syscall_def)
  from ts obtain d where
    d: "\<not> accepting K (proc_set s d) (proc_set s i) \<longrightarrow> s' = s"
    "accepting K (proc_set s d) (proc_set s i) \<longrightarrow>
           s' = set_proc d ((proc_set s d)\<lparr>syscall := (syscall (proc_set s d))\<lparr>
                  sstatus := DONE, sender := pid (proc_set s i),
                  content := memcpy (content (syscall (proc_set s d)))
                               (content (syscall (proc_set s i))) (SYSCALL_MSG_LEN K)\<rparr>\<rparr>) s"
    and dd: "d < MAX_NPROCESS" "pid (proc_set s d) = receiver (syscall (proc_set s i))"
    by (rule proc_try_send_found)
  show ?thesis
  proof (cases "accepting K (proc_set s d) (proc_set s i)")
    case False
    with d assms(2,3) show ?thesis by simp
  next
    case True
    with d have s': "s' = set_proc d ((proc_set s d)\<lparr>syscall := (syscall (proc_set s d))\<lparr>
                  sstatus := DONE, sender := pid (proc_set s i),
                  content := memcpy (content (syscall (proc_set s d)))
                               (content (syscall (proc_set s i))) (SYSCALL_MSG_LEN K)\<rparr>\<rparr>) s"
      by simp
    from assms(2,3) have "j = d"
      unfolding s' by (cases "j = d") auto
    moreover from True SYS_SEND have "d \<noteq> i"
      by (auto simp: accepting_def)
    ultimately show ?thesis
      using SYS_SEND True dd by (simp add: s')
  qed
qed

lemma try_syscall_not_ripe:
  assumes "proc_try_syscall K i s = Inr s'" and "table_ok s" and "i < MAX_NPROCESS"
    and "status (proc_set s i) = PROC_PENDING_SYSCALL"
  shows "\<not> ripe (proc_set s' i)"
proof (cases "stype (syscall (proc_set s i))")
  case SYS_UNUSED
  with assms(1) show ?thesis by (simp add: proc_try_syscall_def)
next
  case SYS_RECV
  with assms(1) have s': "s' = proc_try_recv i s" by (simp add: proc_try_syscall_def)
  from assms(2,3,4) have "find_pid s (pid (proc_set s i)) = Some i"
    by (simp add: table_ok_iff)
  then show ?thesis
    by (cases "sstatus (syscall (proc_set s i))") (simp_all add: s' ripe_def proc_try_recv_pcb)
next
  case SYS_SEND
  from ipc_rel_proc_try_syscall [OF assms(1)]
  have "stype (syscall (proc_set s' i)) = stype (syscall (proc_set s i))"
    by (simp add: ipc_rel_def)
  with SYS_SEND show ?thesis by (simp add: ripe_def)
qed

lemma try_syscall_stuck:
  assumes "proc_try_syscall K i s = Inr s'" and "table_ok s"
  shows "stuck K s' i"
proof (cases "stype (syscall (proc_set s i)) = SYS_SEND")
  case False
  from ipc_rel_proc_try_syscall [OF assms(1)]
  have "stype (syscall (proc_set s' i)) = stype (syscall (proc_set s i))"
    by (simp add: ipc_rel_def)
  with False show ?thesis by (simp add: stuck_def)
next
  case True
  with assms(1) have ts: "proc_try_send K i s = Inr s'" by (simp add: proc_try_syscall_def)
  from ts obtain d0 where d0: "d0 < MAX_NPROCESS"
    "pid (proc_set s d0) = receiver (syscall (proc_set s i))"
    "status (proc_set s d0) \<noteq> PROC_UNUSED"
    "\<forall>j<d0. \<not> (pid (proc_set s j) = receiver (syscall (proc_set s i))
                   \<and> status (proc_set s j) \<noteq> PROC_UNUSED)"
    "\<not> accepting K (proc_set s d0) (proc_set s i) \<longrightarrow> s' = s"
    "accepting K (proc_set s d0) (proc_set s i) \<longrightarrow>
           s' = set_proc d0 ((proc_set s d0)\<lparr>syscall := (syscall (proc_set s d0))\<lparr>
                  sstatus := DONE, sender := pid (proc_set s i),
                  content := memcpy (content (syscall (proc_set s d0)))
                               (content (syscall (proc_set s i))) (SYSCALL_MSG_LEN K)\<rparr>\<rparr>) s"
    by (rule proc_try_send_found)
  note rel = ipc_rel_proc_try_syscall [OF assms(1), unfolded ipc_rel_def, rule_format]
  have na: "\<not> accepting K (proc_set s' d0) (proc_set s' i)"
  proof (cases "accepting K (proc_set s d0) (proc_set s i)")
    case False
    with d0(5) show ?thesis by simp
  next
    case a: True
    with True have "d0 \<noteq> i" by (auto simp: accepting_def)
    with a d0(6) show ?thesis by (simp add: accepting_def)
  qed
  have "d = d0" if "d < MAX_NPROCESS" "status (proc_set s' d) = PROC_PENDING_SYSCALL"
    "pid (proc_set s' d) = receiver (syscall (proc_set s' i))" for d
  proof -
    from rel [of d] that(2) have pd: "status (proc_set s d) = PROC_PENDING_SYSCALL" by auto
    from rel [of d] rel [of i] that(3)
    have pe: "pid (proc_set s d) = receiver (syscall (proc_set s i))" by simp
    from assms(2) that(1) pd have "find_pid s (pid (proc_set s d)) = Some d"
      by (simp add: table_ok_iff)
    then have "\<forall>j<d. pid (proc_set s j) \<noteq> pid (proc_set s d)"
      by (simp add: find_pid_Some)
    with d0(2) pe have "\<not> d0 < d" by auto
    moreover from d0(4) pd pe have "\<not> d < d0" by auto
    ultimately show ?thesis by simp
  qed
  with na show ?thesis
    unfolding stuck_def by blast
qed

lemma wake_and_try_cases:
  assumes "wake_and_try K now i s = Inr s1"
  obtains (woke) "overdue now (proc_set s i)"
      "s1 = set_proc i ((proc_set s i)\<lparr>wakeup_time := 0, status := PROC_RUNNABLE\<rparr>) s"
    | (tried) "status (proc_set s i) = PROC_PENDING_SYSCALL" "proc_try_syscall K i s = Inr s1"
    | (skipped) "status (proc_set s i) \<noteq> PROC_PENDING_SYSCALL" "s1 = s"
proof (cases "overdue now (proc_set s i)")
  case True
  with assms have "s1 = set_proc i ((proc_set s i)\<lparr>wakeup_time := 0, status := PROC_RUNNABLE\<rparr>) s"
    by (simp add: wake_and_try_def overdue_def Let_def)
  with True show ?thesis by (rule woke)
next
  case False
  show ?thesis
  proof (cases "status (proc_set s i) = PROC_PENDING_SYSCALL")
    case p: True
    from False p have "\<not> (0 < wakeup_time (proc_set s i) \<and> wakeup_time (proc_set s i) \<le> now)"
      by (simp add: overdue_def)
    with p assms have "proc_try_syscall K i s = Inr s1"
      unfolding wake_and_try_def Let_def by (simp only: simp_thms if_False if_True)
    with p show ?thesis by (rule tried)
  next
    case n: False
    with assms have "s1 = s"
      by (simp add: wake_and_try_def Let_def)
    with n show ?thesis by (rule skipped)
  qed
qed

lemma table_ok_pending:
  assumes "table_ok s" and "status (proc_set s i) = PROC_PENDING_SYSCALL" and "i \<le> MAX_NPROCESS"
  shows "i < MAX_NPROCESS" and "find_pid s (pid (proc_set s i)) = Some i"
proof -
  from assms show "i < MAX_NPROCESS"
    by (cases "i = MAX_NPROCESS") (auto simp: table_ok_iff)
  with assms show "find_pid s (pid (proc_set s i)) = Some i"
    by (simp add: table_ok_iff)
qed

lemma first_inv_step:
  assumes inv: "first_inv K V s" and lo: "\<forall>j\<in>V. j < i" and i: "i \<le> MAX_NPROCESS"
    and wt: "wake_and_try K now i s = Inr s1"
  shows "first_inv K (insert i V) s1"
proof -
  note rel = ipc_rel_wake_and_try [OF wt]
  from inv have tab: "table_ok s" and fw: "\<And>j. j \<in> V \<Longrightarrow> ripe (proc_set s j) \<Longrightarrow> fwd s j"
    and stk: "\<And>v. v \<in> V \<Longrightarrow> stuck K s v"
    by (auto simp: first_inv_def)
  from rel tab have tab1: "table_ok s1" by (rule table_ok_rel)
  have stV: "stuck K s1 v" if "v \<in> V" for v
    using rel stk [OF that] by (rule stuck_rel)
  have old: "fwd s1 j" if "j \<in> V" "ripe (proc_set s j)" for j
    using rel that(2) fw [OF that] by (rule fwd_rel)
  from wt have "(\<forall>j\<in>insert i V. ripe (proc_set s1 j) \<longrightarrow> fwd s1 j) \<and> stuck K s1 i"
  proof (cases rule: wake_and_try_cases)
    case woke
    then have "\<not> ripe (proc_set s1 i)" "\<And>j. j \<noteq> i \<Longrightarrow> proc_set s1 j = proc_set s j"
      "status (proc_set s1 i) \<noteq> PROC_PENDING_SYSCALL"
      by (simp_all add: ripe_def)
    with old lo show ?thesis
      by (auto simp: stuck_def)
  next
    case skipped
    then have "\<not> ripe (proc_set s1 i)" by (simp add: ripe_def)
    with skipped old show ?thesis
      by (auto simp: stuck_def)
  next
    case tried
    note ii = table_ok_pending [OF tab tried(1) i]
    have nr: "\<not> ripe (proc_set s1 i)"
      using tried(2) tab ii(1) tried(1) by (rule try_syscall_not_ripe)
    have "fwd s1 j" if j: "j \<in> insert i V" and r: "ripe (proc_set s1 j)" for j
    proof (cases "ripe (proc_set s j)")
      case True
      with j r nr old show ?thesis by auto
    next
      case False
      from try_syscall_new_ripe [OF tried(2) r False]
      have "sender (syscall (proc_set s1 j)) = pid (proc_set s i)" "j \<noteq> i"
        by simp_all
      moreover from this j lo have "j < i" by auto
      ultimately show ?thesis
        by (simp add: fwd_def ipc_rel_find_pid [OF rel] ii(2))
    qed
    moreover have "stuck K s1 i"
      using tried(2) tab by (rule try_syscall_stuck)
    ultimately show ?thesis by blast
  qed
  with tab1 stV show ?thesis
    by (auto simp: first_inv_def)
qed

lemma first_pass_inv:
  assumes "first_pass K now is n m s = Inr (d, s')" and "sorted_wrt (<) is"
    and "\<forall>i\<in>set is. i \<le> MAX_NPROCESS \<and> (\<forall>j\<in>V. j < i)" and "first_inv K V s"
  shows "first_inv K (V \<union> set is) s'"
  using assms
proof (induction "is" arbitrary: V n m s)
  case Nil
  then show ?case by simp
next
  case (Cons i "is")
  from Cons.prems(1) obtain s1 n1 m1 where
    wt: "wake_and_try K now i s = Inr s1" and rest: "first_pass K now is n1 m1 s1 = Inr (d, s')"
    by (rule first_pass_Cons_cases) blast+
  from Cons.prems(3,4) wt have inv1: "first_inv K (insert i V) s1"
    by (intro first_inv_step [where s = s and now = now]) auto
  from Cons.prems(2,3) have "\<forall>k\<in>set is. k \<le> MAX_NPROCESS \<and> (\<forall>j\<in>insert i V. j < k)"
    by auto
  with Cons.prems(2) rest inv1 have "first_inv K (insert i V \<union> set is) s'"
    by (intro Cons.IH [where s = s1 and n = n1 and m = m1]) auto
  then show ?case by simp
qed

lemma second_pass_Cons_step:
  assumes "second_pass K now (i # is) n s = Inr (d, s')"
  obtains s1 where
    "(if status (proc_set s i) = PROC_PENDING_SYSCALL then proc_try_syscall K i s else Inr s)
       = Inr s1"
    "(awake now (proc_set s1 i) \<and> d = i \<and> s' = s1)
     \<or> (\<not> awake now (proc_set s1 i) \<and> second_pass K now is n s1 = Inr (d, s'))"
proof -
  from assms obtain s1 where
    1: "(if status (proc_set s i) = PROC_PENDING_SYSCALL then proc_try_syscall K i s else Inr s)
       = Inr s1"
    unfolding second_pass.simps by (auto split: sum.splits)
  from assms have "(awake now (proc_set s1 i) \<and> d = i \<and> s' = s1)
     \<or> (\<not> awake now (proc_set s1 i) \<and> second_pass K now is n s1 = Inr (d, s'))"
    unfolding second_pass.simps 1 sum.case Let_def awake_def by (auto split: if_splits)
  with 1 that show ?thesis by blast
qed

lemma second_inv_step:
  assumes inv: "first_inv K U s" and iU: "i \<in> U" and i: "i \<le> MAX_NPROCESS"
    and lo: "\<forall>j\<in>V. j < i" and na: "\<forall>j\<in>V. \<not> awake now (proc_set s j)"
    and st: "(if status (proc_set s i) = PROC_PENDING_SYSCALL then proc_try_syscall K i s else Inr s)
       = Inr s1"
  shows "first_inv K U s1 \<and> (\<forall>j\<in>V. \<not> awake now (proc_set s1 j))"
proof (cases "status (proc_set s i) = PROC_PENDING_SYSCALL")
  case False
  with st inv na show ?thesis by simp
next
  case True
  with st have tr: "proc_try_syscall K i s = Inr s1" by simp
  note rel = ipc_rel_proc_try_syscall [OF tr]
  from inv have tab: "table_ok s" and fw: "\<And>j. j \<in> U \<Longrightarrow> ripe (proc_set s j) \<Longrightarrow> fwd s j"
    and stk: "\<And>v. v \<in> U \<Longrightarrow> stuck K s v"
    by (auto simp: first_inv_def)
  note ii = table_ok_pending [OF tab True i]
  from rel tab have tab1: "table_ok s1" by (rule table_ok_rel)
  have stU: "stuck K s1 v" if "v \<in> U" for v
    using rel stk [OF that] by (rule stuck_rel)
  have rp: "ripe (proc_set s j)" if r: "ripe (proc_set s1 j)" for j
  proof (rule ccontr)
    assume n: "\<not> ripe (proc_set s j)"
    from try_syscall_new_ripe [OF tr r n]
    have a: "stype (syscall (proc_set s i)) = SYS_SEND" "j < MAX_NPROCESS"
      "pid (proc_set s j) = receiver (syscall (proc_set s i))"
      "accepting K (proc_set s j) (proc_set s i)"
      by simp_all
    from r rel [unfolded ipc_rel_def, rule_format, of j]
    have "status (proc_set s j) = PROC_PENDING_SYSCALL"
      by (auto simp: ripe_def)
    with stk [OF iU] True a show False
      by (auto simp: stuck_def)
  qed
  have fw1: "fwd s1 j" if "j \<in> U" "ripe (proc_set s1 j)" for j
    using rel rp [OF that(2)] fw [OF that(1) rp [OF that(2)]] by (rule fwd_rel)
  have "\<not> awake now (proc_set s1 j)" if j: "j \<in> V" for j
  proof (cases "status (proc_set s1 j) = status (proc_set s j)")
    case same: True
    with na j try_syscall_wakeup_time [OF tr, of j] show ?thesis
      by (auto simp: awake_def schedulable_def sleeping_def)
  next
    case False
    from try_syscall_status [OF tr False]
    have r: "stype (syscall (proc_set s i)) = SYS_RECV" "sstatus (syscall (proc_set s i)) = DONE"
      and t: "find_pid s (pid (proc_set s i)) = Some j
        \<or> find_pid s (sender (syscall (proc_set s i))) = Some j"
      by simp_all
    from r True have "ripe (proc_set s i)" by (simp add: ripe_def)
    with fw [OF iU] have "fwd s i" by simp
    with t ii(2) have "i \<le> j" by (auto simp: fwd_def)
    with lo j show ?thesis by auto
  qed
  with tab1 stU fw1 show ?thesis
    by (auto simp: first_inv_def)
qed

lemma second_pass_inv:
  assumes "second_pass K now is n s = Inr (d, s')" and "sorted_wrt (<) is"
    and "\<forall>i\<in>set is. i \<in> U \<and> i \<le> MAX_NPROCESS \<and> (\<forall>j\<in>V. j < i)"
    and "first_inv K U s" and "\<forall>j\<in>V. \<not> awake now (proc_set s j)"
  shows "table_ok s'
    \<and> ((d \<in> set is \<and> awake now (proc_set s' d))
       \<or> (d = n \<and> (\<forall>j\<in>V \<union> set is. \<not> awake now (proc_set s' j))))"
  using assms
proof (induction "is" arbitrary: V s)
  case Nil
  then show ?case by (simp add: first_inv_def)
next
  case (Cons i "is")
  from Cons.prems(1) obtain s1 where
    st: "(if status (proc_set s i) = PROC_PENDING_SYSCALL then proc_try_syscall K i s else Inr s)
       = Inr s1"
    and alt: "(awake now (proc_set s1 i) \<and> d = i \<and> s' = s1)
     \<or> (\<not> awake now (proc_set s1 i) \<and> second_pass K now is n s1 = Inr (d, s'))"
    by (rule second_pass_Cons_step)
  from Cons.prems(3,4,5) st
  have inv1: "first_inv K U s1" and na1: "\<forall>j\<in>V. \<not> awake now (proc_set s1 j)"
    using second_inv_step [where K = K and U = U and s = s and i = i and V = V and now = now
        and ?s1.0 = s1]
    by auto
  from alt show ?case
  proof
    assume "awake now (proc_set s1 i) \<and> d = i \<and> s' = s1"
    with inv1 show ?thesis by (simp add: first_inv_def)
  next
    assume a: "\<not> awake now (proc_set s1 i) \<and> second_pass K now is n s1 = Inr (d, s')"
    from Cons.prems(2,3) have "\<forall>k\<in>set is. k \<in> U \<and> k \<le> MAX_NPROCESS \<and> (\<forall>j\<in>insert i V. j < k)"
      by auto
    with a Cons.prems(2) inv1 na1
    have "table_ok s'
      \<and> ((d \<in> set is \<and> awake now (proc_set s' d))
         \<or> (d = n \<and> (\<forall>j\<in>insert i V \<union> set is. \<not> awake now (proc_set s' j))))"
      by (intro Cons.IH [where s = s1]) auto
    then show ?thesis by auto
  qed
qed

lemma ipc_rel_yield_prepare:
  assumes "yield_prepare K s = (now, s3)"
  shows "ipc_rel s s3"
proof -
  define s1 where "s1 = (if curr_status s = PROC_RUNNING then proc_set_runnable (curr_pid s) s else s)"
  have 1: "ipc_rel s s1" by (simp add: s1_def)
  have 2: "ipc_rel s1 (mlfq_reset_level K s1)"
    by (simp add: ipc_rel_def)
  from assms have "proc_set s3 = proc_set (mlfq_reset_level K s1)"
    by (auto simp: yield_prepare_def s1_def mtime_get_def Let_def)
  then have 3: "ipc_rel (mlfq_reset_level K s1) s3"
    unfolding ipc_rel_def find_pid_def by simp
  from 1 2 3 show ?thesis
    by (blast intro: ipc_rel_trans)
qed

lemma hal_proc_set_running [simp]: "hal (proc_set_running p s) = hal s"
  by (auto simp: proc_set_running_def mtime_get_def Let_def split: option.splits)

lemma hal_yield_dispatch:
  "hal (yield_dispatch K d s) =
     hal s @ [if pid (proc_set s d) \<ge> GPID_USER_START K then SET_MPP_USER else SET_MPP_MACHINE,
              MMU_SWITCH (pid (proc_set s d)), MMU_FLUSH_CACHE, TIMER_RESET (core_in_kernel s)]"
  by (simp add: yield_dispatch_def Let_def split_def mtime_get_def curr_pid_def
      curr_proc_idx_def curr_status_def)

lemma table_ok_not_awake: "table_ok s \<Longrightarrow> \<not> awake now (proc_set s MAX_NPROCESS)"
  by (auto simp: table_ok_iff awake_def schedulable_def)

lemma yield_select_table:
  assumes "table_ok s" and "yield_prepare K s = (now, s3)" and "yield_select K s = Inr (d, s5)"
  shows "table_ok s5"
    and "\<not> d < MAX_NPROCESS \<Longrightarrow> 1 \<le> j \<Longrightarrow> j \<le> MAX_NPROCESS \<Longrightarrow> \<not> awake now (proc_set s5 j)"
proof -
  from ipc_rel_yield_prepare [OF assms(2)] assms(1) have t3: "table_ok s3"
    by (rule table_ok_rel)
  from assms(3,2) obtain d1 s4 where
    fp: "first_pass K now [1..<Suc MAX_NPROCESS] MAX_NPROCESS MLFQ_LEVELS s3 = Inr (d1, s4)"
    and alt: "(d1 \<noteq> MAX_NPROCESS \<and> d = d1 \<and> s5 = s4)
     \<or> (d1 = MAX_NPROCESS
        \<and> second_pass K now [1..<Suc MAX_NPROCESS] MAX_NPROCESS s4 = Inr (d, s5))"
    by (rule yield_select_split)
  from t3 have "first_inv K {} s3" by (simp add: first_inv_def)
  have "\<forall>i\<in>set [1..<Suc MAX_NPROCESS]. i \<le> MAX_NPROCESS \<and> (\<forall>j\<in>{}. j < i)"
    by (simp add: in_yield_slots del: upt_Suc)
  with fp sorted_yield_slots have "first_inv K ({} \<union> set [1..<Suc MAX_NPROCESS]) s4"
    using \<open>first_inv K {} s3\<close> by (rule first_pass_inv)
  then have inv4: "first_inv K (set [1..<Suc MAX_NPROCESS]) s4" by simp
  then have t4: "table_ok s4" by (simp add: first_inv_def)
  have sp: "table_ok s5
    \<and> ((d \<in> set [1..<Suc MAX_NPROCESS] \<and> awake now (proc_set s5 d))
       \<or> (d = MAX_NPROCESS
          \<and> (\<forall>j\<in>{} \<union> set [1..<Suc MAX_NPROCESS]. \<not> awake now (proc_set s5 j))))"
    if "second_pass K now [1..<Suc MAX_NPROCESS] MAX_NPROCESS s4 = Inr (d, s5)"
  proof -
    have "\<forall>i\<in>set [1..<Suc MAX_NPROCESS]. i \<in> set [1..<Suc MAX_NPROCESS]
        \<and> i \<le> MAX_NPROCESS \<and> (\<forall>j\<in>{}. j < i)"
      by (simp add: in_yield_slots del: upt_Suc)
    with that sorted_yield_slots show ?thesis
      using inv4 by (rule second_pass_inv) simp
  qed
  from alt t4 sp show "table_ok s5" by auto
  assume d: "\<not> d < MAX_NPROCESS" and j: "1 \<le> j" "j \<le> MAX_NPROCESS"
  from yield_select_facts(2) [OF assms(3,2)] fp d alt
  have "second_pass K now [1..<Suc MAX_NPROCESS] MAX_NPROCESS s4 = Inr (d, s5)"
  proof -
    from first_pass_choice [OF fp sorted_yield_slots]
    have "d1 = MAX_NPROCESS \<or> d1 \<in> set [1..<Suc MAX_NPROCESS] \<and> awake now (proc_set s4 d1)"
      by (auto simp: chosen_def eligible_awake)
    with t4 have "d1 = MAX_NPROCESS \<or> d1 < MAX_NPROCESS"
      by (cases "d1 = MAX_NPROCESS") (auto simp: in_yield_slots simp del: upt_Suc)
    with alt d show ?thesis by auto
  qed
  from sp [OF this] have "table_ok s5" and
    c: "(d \<in> set [1..<Suc MAX_NPROCESS] \<and> awake now (proc_set s5 d))
       \<or> (d = MAX_NPROCESS \<and> (\<forall>j\<in>set [1..<Suc MAX_NPROCESS]. \<not> awake now (proc_set s5 j)))"
    by simp_all
  from c d table_ok_not_awake [OF \<open>table_ok s5\<close>, of now]
  have "\<forall>j\<in>set [1..<Suc MAX_NPROCESS]. \<not> awake now (proc_set s5 j)"
    by (cases "d = MAX_NPROCESS") (auto simp: in_yield_slots simp del: upt_Suc)
  with j show "\<not> awake now (proc_set s5 j)"
    by (simp add: in_yield_slots del: upt_Suc)
qed

lemma yield_select_two_ready:
  "yield_select egos two_ready = Inr (7, two_ready\<lparr>mtime_reads := 2\<rparr>)"
  unfolding yield_select_def Let_def prepare_two_ready prod.case first_pass_two_ready sum.case
  by (simp add: MAX_NPROCESS_def)

lemma yield_select_after_sleep:
  "yield_select egos after_sleep
     = Inr (MAX_NPROCESS, asleep PROC_RUNNABLE 1100 3 [MMU_COPY_OUT 1 recv_done] 1)"
  unfolding yield_select_def Let_def prepare_after_sleep prod.case first_pass_asleep sum.case
  by (simp add: second_pass_asleep del: upt_Suc One_nat_def)

lemma table_ok_examples: "table_ok two_ready" "table_ok after_sleep"
  unfolding table_ok_def find_pid_def scan_slots after_sleep_eq
  by (simp_all add: two_ready_def kstate_zero_def proc_zero_def MAX_NPROCESS_def)

section \<open>The phases of a rendezvous\<close>

lemma pair_ok_other:
  assumes "pair_ok P st" and "i \<le> MAX_NPROCESS" and "i \<noteq> sslot P" and "i \<noteq> rslot P"
  shows "pid (proc_set st i) \<noteq> spid P" and "pid (proc_set st i) \<noteq> rpid P"
    and "status (proc_set st i) = PROC_PENDING_SYSCALL \<Longrightarrow> bystander P st (proc_set st i)"
  using assms unfolding pair_ok_def by (auto simp del: upt_Suc)

lemma pair_slot:
  assumes "pair_ok P st" and "i \<le> MAX_NPROCESS"
  shows "pid (proc_set st i) = spid P \<longleftrightarrow> i = sslot P"
    and "pid (proc_set st i) = rpid P \<longleftrightarrow> i = rslot P"
proof -
  from assms(1) have a: "pid (proc_set st (sslot P)) = spid P" "pid (proc_set st (rslot P)) = rpid P"
    "spid P \<noteq> rpid P"
    by (simp_all add: pair_ok_def)
  show "pid (proc_set st i) = spid P \<longleftrightarrow> i = sslot P"
    using a pair_ok_other(1) [OF assms] by (cases "i = rslot P") auto
  show "pid (proc_set st i) = rpid P \<longleftrightarrow> i = rslot P"
    using a pair_ok_other(2) [OF assms] by (cases "i = sslot P") auto
qed

lemma pair_find_pid:
  assumes "pair_ok P st"
  shows "find_pid st (spid P) = Some (sslot P)" and "find_pid st (rpid P) = Some (rslot P)"
proof -
  from assms have lt: "sslot P < MAX_NPROCESS" "rslot P < MAX_NPROCESS"
    by (simp_all add: pair_ok_def)
  show "find_pid st (spid P) = Some (sslot P)"
    unfolding find_pid_Some using lt pair_slot(1) [OF assms] by auto
  show "find_pid st (rpid P) = Some (rslot P)"
    unfolding find_pid_Some using lt pair_slot(2) [OF assms] by auto
qed

lemma pair_find_receiver:
  assumes "pair_ok P st" and "status (proc_set st (rslot P)) \<noteq> PROC_UNUSED"
  shows "find (\<lambda>i. pid (proc_set st i) = rpid P \<and> status (proc_set st i) \<noteq> PROC_UNUSED)
           [0..<MAX_NPROCESS] = Some (rslot P)"
proof -
  from assms have lt: "rslot P < MAX_NPROCESS"
    by (simp_all add: pair_ok_def)
  show ?thesis
    unfolding find_upt_Some using lt assms(2) pair_slot(2) [OF assms(1)] by auto
qed

lemma phase_pair: "phase K P k st \<Longrightarrow> pair_ok P st"
  by (simp add: phase_def)

lemma phase_le2: "phase K P k st \<Longrightarrow> k \<le> 2"
  by (auto simp: phase_def split: if_splits)

lemma phase_blocked:
  assumes "phase K P k st" and "k \<noteq> 2" and "j = sslot P \<or> j = rslot P"
  shows "status (proc_set st j) = PROC_PENDING_SYSCALL"
  using assms by (auto simp: phase_def sending_def receiving_def split: if_splits)

lemma phase_delivered: "phase K P 2 st \<Longrightarrow> delivered P st"
  by (simp add: phase_def delivered_def)

lemma env_step_refl: "curr_proc_idx st \<le> MAX_NPROCESS \<Longrightarrow> env_step P k st st"
  by (simp add: env_step_def)

lemma env_phase:
  assumes ph: "phase K P k st" and env: "env_step P k st st'"
  shows "phase K P k st'"
proof -
  let ?s = "sslot P" and ?r = "rslot P"
  note ok = phase_pair [OF ph]
  from env have cur: "curr_proc_idx st' \<le> MAX_NPROCESS"
    and pd: "\<And>j. pid (proc_set st' j) = pid (proc_set st j)"
    and stt: "\<And>j. status (proc_set st' j) = status (proc_set st j)
             \<or> (unblocked (proc_set st' j) \<and> (j = ?s \<or> j = ?r \<longrightarrow> k = 2))"
    and pr: "\<And>j. j = ?s \<or> j = ?r \<Longrightarrow> syscall (proc_set st' j) = syscall (proc_set st j)
                   \<and> wakeup_time (proc_set st' j) = wakeup_time (proc_set st j)"
    and ot: "\<And>j. j \<noteq> ?s \<Longrightarrow> j \<noteq> ?r \<Longrightarrow> syscall (proc_set st' j) = syscall (proc_set st j)
                   \<or> (stype (syscall (proc_set st' j)) = SYS_RECV
                      \<and> sender (syscall (proc_set st' j)) \<noteq> spid P
                      \<and> sender (syscall (proc_set st' j)) \<noteq> rpid P)"
    by (auto simp: env_step_def split: if_splits)
  have nu: "status (proc_set st' d) \<noteq> PROC_UNUSED" if "status (proc_set st d) \<noteq> PROC_UNUSED" for d
    using stt [of d] that by (auto simp: unblocked_def)
  have by': "bystander P st' (proc_set st' i)"
    if i: "i \<le> MAX_NPROCESS" "i \<noteq> ?s" "i \<noteq> ?r" and p: "status (proc_set st' i) = PROC_PENDING_SYSCALL"
    for i
  proof -
    from stt [of i] p have "status (proc_set st i) = PROC_PENDING_SYSCALL"
      by (auto simp: unblocked_def)
    with ok i have b: "bystander P st (proc_set st i)" by (rule pair_ok_other(3))
    from ot [OF i(2,3)] show ?thesis
    proof
      assume same: "syscall (proc_set st' i) = syscall (proc_set st i)"
      from b show ?thesis
        unfolding bystander_def same pd by (auto dest: nu)
    next
      assume "stype (syscall (proc_set st' i)) = SYS_RECV
                      \<and> sender (syscall (proc_set st' i)) \<noteq> spid P
                      \<and> sender (syscall (proc_set st' i)) \<noteq> rpid P"
      then show ?thesis by (simp add: bystander_def)
    qed
  qed
  have ok': "pair_ok P st'"
    using ok cur by' pr [of ?s] pr [of ?r]
    unfolding pair_ok_def pd by (auto simp del: upt_Suc)
  have same: "status (proc_set st' j) = status (proc_set st j)" if "k \<noteq> 2" "j = ?s \<or> j = ?r" for j
    using stt [of j] that by auto
  show ?thesis
  proof (cases "k = 2")
    case True
    with ph stt [of ?s] stt [of ?r] pr [of ?s] pr [of ?r] ok' show ?thesis
      by (auto simp: phase_def received_def unblocked_def)
  next
    case False
    with ph same [of ?s] same [of ?r] pr [of ?s] pr [of ?r] ok' show ?thesis
      by (auto simp: phase_def received_def sending_def receiving_def split: if_splits)
  qed
qed

lemma pair_ok_keep:
  assumes ok: "pair_ok P st" and cur: "curr_proc_idx st' \<le> MAX_NPROCESS"
    and pd: "\<And>j. pid (proc_set st' j) = pid (proc_set st j)"
    and w: "wakeup_time (proc_set st' (sslot P)) = 0" "wakeup_time (proc_set st' (rslot P)) = 0"
    and ot: "\<And>j. j \<noteq> sslot P \<Longrightarrow> j \<noteq> rslot P \<Longrightarrow>
               status (proc_set st' j) = status (proc_set st j)
               \<and> syscall (proc_set st' j) = syscall (proc_set st j)"
    and nu: "\<And>j. status (proc_set st j) \<noteq> PROC_UNUSED \<Longrightarrow> status (proc_set st' j) \<noteq> PROC_UNUSED"
  shows "pair_ok P st'"
proof -
  have "bystander P st' (proc_set st' i)"
    if i: "i \<le> MAX_NPROCESS" "i \<noteq> sslot P" "i \<noteq> rslot P"
      and p: "status (proc_set st' i) = PROC_PENDING_SYSCALL" for i
  proof -
    from ot [OF i(2,3)] p have "status (proc_set st i) = PROC_PENDING_SYSCALL" by simp
    with ok i have "bystander P st (proc_set st i)" by (rule pair_ok_other(3))
    then show ?thesis
      unfolding bystander_def pd using ot [OF i(2,3)] by (auto dest: nu)
  qed
  with ok cur w show ?thesis
    unfolding pair_ok_def pd by (auto simp del: upt_Suc)
qed

lemma wake_and_try_pair_slot:
  assumes "pair_ok P st" and "i = sslot P \<or> i = rslot P"
  shows "wake_and_try K now i st = try_step K i st"
proof -
  from assms have "wakeup_time (proc_set st i) = 0"
    by (auto simp: pair_ok_def)
  then show ?thesis
    by (simp add: wake_and_try_def try_step_def)
qed

lemma try_step_sender_0:
  assumes "phase K P 0 st"
  shows "\<exists>st'. try_step K (sslot P) st = Inr st' \<and> phase K P 1 st'"
proof -
  let ?s = "sslot P" and ?r = "rslot P"
  from assms have ok: "pair_ok P st" and len: "length (msg P) = SYSCALL_MSG_LEN K"
    and snd: "sending P (proc_set st ?s)" and rcv: "receiving K P (proc_set st ?r)"
    by (auto simp: phase_def)
  from ok have ne: "?s \<noteq> ?r" and ps: "pid (proc_set st ?s) = spid P"
    and w: "wakeup_time (proc_set st ?s) = 0" "wakeup_time (proc_set st ?r) = 0"
    and cur: "curr_proc_idx st \<le> MAX_NPROCESS"
    by (auto simp: pair_ok_def)
  from rcv have "status (proc_set st ?r) \<noteq> PROC_UNUSED"
    by (auto simp: receiving_def)
  with ok have f: "find (\<lambda>i. pid (proc_set st i) = rpid P \<and> status (proc_set st i) \<noteq> PROC_UNUSED)
           [0..<MAX_NPROCESS] = Some ?r"
    by (rule pair_find_receiver)
  define st' where "st' = set_proc ?r
      ((proc_set st ?r)\<lparr>syscall := (syscall (proc_set st ?r))\<lparr>
          sstatus := DONE, sender := spid P,
          content := memcpy (content (syscall (proc_set st ?r))) (msg P) (SYSCALL_MSG_LEN K)\<rparr>\<rparr>) st"
  from snd rcv f ps have "try_step K ?s st = Inr st'"
    unfolding try_step_def proc_try_syscall_def proc_try_send_def st'_def sending_def
      receiving_def Let_def
    by auto
  moreover have "pair_ok P st'"
    using ok by (rule pair_ok_keep) (use cur w ne in \<open>auto simp: st'_def curr_proc_idx_def\<close>)
  moreover have "sending P (proc_set st' ?s)"
    using snd ne by (simp add: st'_def)
  moreover have "status (proc_set st' ?r) = PROC_PENDING_SYSCALL \<and> received P (proc_set st' ?r)"
    using rcv len by (simp add: st'_def received_def receiving_def memcpy_def)
  ultimately show ?thesis
    using len by (auto simp: phase_def sending_def)
qed

lemma try_step_sender_1:
  assumes "phase K P 1 st"
  shows "try_step K (sslot P) st = Inr st"
proof -
  let ?s = "sslot P" and ?r = "rslot P"
  from assms have ok: "pair_ok P st"
    and snd: "sending P (proc_set st ?s)" and rcv: "received P (proc_set st ?r)"
    and pend: "status (proc_set st ?r) = PROC_PENDING_SYSCALL"
    by (auto simp: phase_def)
  from pend have "status (proc_set st ?r) \<noteq> PROC_UNUSED" by simp
  with ok have f: "find (\<lambda>i. pid (proc_set st i) = rpid P \<and> status (proc_set st i) \<noteq> PROC_UNUSED)
           [0..<MAX_NPROCESS] = Some ?r"
    by (rule pair_find_receiver)
  from snd rcv f show ?thesis
    unfolding try_step_def proc_try_syscall_def proc_try_send_def sending_def received_def Let_def
    by auto
qed

lemma try_step_receiver_0:
  assumes "phase K P 0 st"
  shows "try_step K (rslot P) st = Inr st"
  using assms
  by (auto simp: phase_def receiving_def try_step_def proc_try_syscall_def proc_try_recv_def)

lemma try_step_receiver_1:
  assumes "phase K P 1 st"
  shows "\<exists>st'. try_step K (rslot P) st = Inr st' \<and> phase K P 2 st'"
proof -
  let ?s = "sslot P" and ?r = "rslot P"
  from assms have ok: "pair_ok P st" and len: "length (msg P) = SYSCALL_MSG_LEN K"
    and snd: "sending P (proc_set st ?s)" and rcv: "received P (proc_set st ?r)"
    and pend: "status (proc_set st ?r) = PROC_PENDING_SYSCALL"
    by (auto simp: phase_def)
  from ok have ne: "?s \<noteq> ?r" and pr: "pid (proc_set st ?r) = rpid P"
    and w: "wakeup_time (proc_set st ?s) = 0" "wakeup_time (proc_set st ?r) = 0"
    and cur: "curr_proc_idx st \<le> MAX_NPROCESS"
    by (auto simp: pair_ok_def)
  note fp = pair_find_pid [OF ok]
  define st' where "st' = proc_try_recv ?r st"
  have step: "try_step K ?r st = Inr st'"
    using pend rcv by (simp add: try_step_def proc_try_syscall_def received_def st'_def)
  have pcb: "pid (proc_set st' j) = pid (proc_set st j)"
    "syscall (proc_set st' j) = syscall (proc_set st j)"
    "wakeup_time (proc_set st' j) = wakeup_time (proc_set st j)"
    "status (proc_set st' j) = (if j = ?s \<or> j = ?r then PROC_RUNNABLE else status (proc_set st j))"
    for j
    using rcv pr fp ne
    by (auto simp: st'_def proc_try_recv_pcb received_def)
  have c: "curr_proc_idx st' = curr_proc_idx st"
    by (simp add: st'_def proc_try_recv_def curr_proc_idx_def Let_def)
  have "pair_ok P st'"
    using ok by (rule pair_ok_keep) (use cur w in \<open>auto simp: pcb c\<close>)
  moreover have "received P (proc_set st' ?r)"
    using rcv by (simp add: received_def pcb)
  moreover from snd have "stype (syscall (proc_set st' ?s)) = SYS_SEND"
    by (simp add: pcb sending_def)
  ultimately have "phase K P 2 st'"
    using len by (simp add: phase_def unblocked_def pcb)
  with step show ?thesis by auto
qed

lemma try_step_unblocked:
  assumes "phase K P 2 st" and "i = sslot P \<or> i = rslot P"
  shows "try_step K i st = Inr st"
  using assms by (auto simp: phase_def unblocked_def try_step_def)

lemma try_step_bystander:
  assumes ph: "phase K P k st" and i: "i \<le> MAX_NPROCESS" "i \<noteq> sslot P" "i \<noteq> rslot P"
  shows "\<exists>st'. try_step K i st = Inr st' \<and> env_step P k st st'"
proof (cases "status (proc_set st i) = PROC_PENDING_SYSCALL")
  case False
  with phase_pair [OF ph] show ?thesis
    by (simp add: try_step_def env_step_refl pair_ok_def)
next
  case True
  let ?s = "sslot P" and ?r = "rslot P"
  note ok = phase_pair [OF ph]
  from ok have cur: "curr_proc_idx st \<le> MAX_NPROCESS" by (simp add: pair_ok_def)
  from ok i True have b: "bystander P st (proc_set st i)" by (rule pair_ok_other(3))
  note oi = pair_ok_other(1,2) [OF ok i]
  from ph have ss: "stype (syscall (proc_set st ?s)) = SYS_SEND" by (simp add: phase_def)
  show ?thesis
  proof (cases "stype (syscall (proc_set st i)) = SYS_RECV")
    case rv: True
    define st' where "st' = proc_try_recv i st"
    have step: "try_step K i st = Inr st'"
      using True rv by (simp add: try_step_def proc_try_syscall_def st'_def)
    have c: "curr_proc_idx st' = curr_proc_idx st"
      by (simp add: st'_def proc_try_recv_def curr_proc_idx_def Let_def)
    have tg: "j \<noteq> ?s \<and> j \<noteq> ?r"
      if d: "sstatus (syscall (proc_set st i)) = DONE"
        and f: "find_pid st (pid (proc_set st i)) = Some j
            \<or> find_pid st (sender (syscall (proc_set st i))) = Some j" for j
    proof -
      from b rv d have x: "sender (syscall (proc_set st i)) \<noteq> spid P"
        "sender (syscall (proc_set st i)) \<noteq> rpid P"
        by (auto simp: bystander_def)
      from f have "pid (proc_set st j) = pid (proc_set st i)
          \<or> pid (proc_set st j) = sender (syscall (proc_set st i))"
        by (auto simp: find_pid_Some)
      with x oi ok show ?thesis
        by (auto simp: pair_ok_def)
    qed
    have "env_step P k st st'"
      unfolding env_step_def c
      using cur tg by (auto simp: st'_def proc_try_recv_pcb unblocked_def)
    with step show ?thesis by blast
  next
    case nr: False
    with b have sd: "stype (syscall (proc_set st i)) = SYS_SEND"
      and nrp: "receiver (syscall (proc_set st i)) \<noteq> rpid P"
      and ex: "\<exists>d<MAX_NPROCESS. pid (proc_set st d) = receiver (syscall (proc_set st i))
              \<and> status (proc_set st d) \<noteq> PROC_UNUSED"
      by (auto simp: bystander_def)
    from ex have "find (\<lambda>j. pid (proc_set st j) = receiver (syscall (proc_set st i))
                         \<and> status (proc_set st j) \<noteq> PROC_UNUSED) [0..<MAX_NPROCESS] \<noteq> None"
      by (auto simp: find_None_iff)
    then have "\<exists>st'. proc_try_send K i st = Inr st'"
      unfolding proc_try_send_def Let_def by (auto split: option.splits)
    then obtain st' where ts: "proc_try_send K i st = Inr st'" ..
    with True sd have step: "try_step K i st = Inr st'"
      by (simp add: try_step_def proc_try_syscall_def)
    from ts obtain d where d: "d < MAX_NPROCESS"
      "pid (proc_set st d) = receiver (syscall (proc_set st i))"
      "\<not> accepting K (proc_set st d) (proc_set st i) \<longrightarrow> st' = st"
      "accepting K (proc_set st d) (proc_set st i) \<longrightarrow>
           st' = set_proc d ((proc_set st d)\<lparr>syscall := (syscall (proc_set st d))\<lparr>
                  sstatus := DONE, sender := pid (proc_set st i),
                  content := memcpy (content (syscall (proc_set st d)))
                               (content (syscall (proc_set st i))) (SYSCALL_MSG_LEN K)\<rparr>\<rparr>) st"
      by (rule proc_try_send_found)
    have "env_step P k st st'"
    proof (cases "accepting K (proc_set st d) (proc_set st i)")
      case False
      with d(3) cur show ?thesis by (simp add: env_step_refl)
    next
      case acc: True
      from d(2) nrp ok have dr: "d \<noteq> ?r" by (auto simp: pair_ok_def)
      from acc ss have ds: "d \<noteq> ?s" by (auto simp: accepting_def)
      from acc d(4) have st': "st' = set_proc d ((proc_set st d)\<lparr>syscall := (syscall (proc_set st d))\<lparr>
                  sstatus := DONE, sender := pid (proc_set st i),
                  content := memcpy (content (syscall (proc_set st d)))
                               (content (syscall (proc_set st i))) (SYSCALL_MSG_LEN K)\<rparr>\<rparr>) st"
        by simp
      from acc have "stype (syscall (proc_set st d)) = SYS_RECV" by (simp add: accepting_def)
      with cur dr ds oi show ?thesis
        unfolding env_step_def st' by (auto simp: curr_proc_idx_def)
    qed
    with step show ?thesis by blast
  qed
qed

lemma wake_and_try_bystander:
  assumes ph: "phase K P k st" and i: "i \<le> MAX_NPROCESS" "i \<noteq> sslot P" "i \<noteq> rslot P"
  shows "\<exists>st'. wake_and_try K now i st = Inr st' \<and> env_step P k st st'"
proof (cases "overdue now (proc_set st i)")
  case False
  then have "wake_and_try K now i st = try_step K i st"
    by (auto simp: wake_and_try_def try_step_def overdue_def Let_def)
  with try_step_bystander [OF ph i] show ?thesis by simp
next
  case True
  define st' where "st' = set_proc i ((proc_set st i)\<lparr>wakeup_time := 0, status := PROC_RUNNABLE\<rparr>) st"
  from True have "wake_and_try K now i st = Inr st'"
    by (simp add: wake_and_try_def overdue_def Let_def st'_def)
  moreover from phase_pair [OF ph] have "curr_proc_idx st \<le> MAX_NPROCESS"
    by (simp add: pair_ok_def)
  then have "env_step P k st st'"
    using i unfolding env_step_def st'_def by (auto simp: curr_proc_idx_def unblocked_def)
  ultimately show ?thesis by blast
qed

lemma try_step_phase:
  assumes "phase K P k st" and "i \<le> MAX_NPROCESS"
  shows "\<exists>k' st'. try_step K i st = Inr st' \<and> phase K P k' st' \<and> k \<le> k'
    \<and> (i = sslot P \<and> k = 0 \<longrightarrow> k' = 1) \<and> (i = rslot P \<and> k = 1 \<longrightarrow> k' = 2)"
proof -
  from assms have ne: "sslot P \<noteq> rslot P"
    by (auto simp: phase_def pair_ok_def)
  show ?thesis
  proof (cases "i = sslot P \<or> i = rslot P")
    case False
    then have "i \<noteq> sslot P" "i \<noteq> rslot P" by auto
    from try_step_bystander [OF assms this] obtain st' where
      "try_step K i st = Inr st'" "env_step P k st st'"
      by blast
    with env_phase [OF assms(1)] False show ?thesis by blast
  next
    case True
    from phase_le2 [OF assms(1)] consider "k = 0" | "k = 1" | "k = 2" by arith
    then show ?thesis
    proof cases
      case 1
      with assms(1) True ne try_step_sender_0 [of K P st] try_step_receiver_0 [of K P st]
      show ?thesis by (cases "i = sslot P") auto
    next
      case 2
      with assms(1) True ne try_step_sender_1 [of K P st] try_step_receiver_1 [of K P st]
      show ?thesis by (cases "i = sslot P") auto
    next
      case 3
      with assms(1) True try_step_unblocked [of K P st i] show ?thesis by auto
    qed
  qed
qed

lemma wake_and_try_phase:
  assumes "phase K P k st" and "i \<le> MAX_NPROCESS"
  shows "\<exists>k' st'. wake_and_try K now i st = Inr st' \<and> phase K P k' st' \<and> k \<le> k'
    \<and> (i = sslot P \<and> k = 0 \<longrightarrow> k' = 1) \<and> (i = rslot P \<and> k = 1 \<longrightarrow> k' = 2)"
proof (cases "i = sslot P \<or> i = rslot P")
  case True
  with try_step_phase [OF assms] wake_and_try_pair_slot [OF phase_pair [OF assms(1)] True]
  show ?thesis by simp
next
  case False
  then have "i \<noteq> sslot P" "i \<noteq> rslot P" by auto
  from wake_and_try_bystander [OF assms this, of now] obtain st' where
    "wake_and_try K now i st = Inr st'" "env_step P k st st'"
    by blast
  with env_phase [OF assms(1)] False show ?thesis by blast
qed

lemma first_pass_phase:
  assumes "phase K P k st" and "\<forall>i\<in>set is. i \<le> MAX_NPROCESS"
  shows "\<exists>d k' st'. first_pass K now is n m st = Inr (d, st') \<and> phase K P k' st' \<and> k \<le> k'
    \<and> (sslot P \<in> set is \<longrightarrow> 1 \<le> k') \<and> (rslot P \<in> set is \<and> 1 \<le> k \<longrightarrow> k' = 2)"
  using assms
proof (induction "is" arbitrary: n m st k)
  case Nil
  then show ?case by auto
next
  case (Cons i "is")
  from Cons.prems(2) have i: "i \<le> MAX_NPROCESS" and rest: "\<forall>i\<in>set is. i \<le> MAX_NPROCESS"
    by simp_all
  from wake_and_try_phase [OF Cons.prems(1) i, of now] obtain k1 st1 where
    w: "wake_and_try K now i st = Inr st1" and ph1: "phase K P k1 st1" and le: "k \<le> k1"
    and s: "i = sslot P \<and> k = 0 \<longrightarrow> k1 = 1" and r: "i = rslot P \<and> k = 1 \<longrightarrow> k1 = 2"
    by blast
  from w have "\<exists>n' m'. first_pass K now (i # is) n m st = first_pass K now is n' m' st1"
    by (cases "sleeping now (proc_set st1 i)";
        cases "schedulable (proc_set st1 i) \<and> queue_level (proc_set st1 i) < m")
       (auto simp: Let_def)
  then obtain n' m' where
    eq: "first_pass K now (i # is) n m st = first_pass K now is n' m' st1"
    by blast
  from Cons.IH [OF ph1 rest, of n' m'] obtain d k' st' where
    res: "first_pass K now is n' m' st1 = Inr (d, st')" and ph': "phase K P k' st'"
    and le': "k1 \<le> k'" and s': "sslot P \<in> set is \<longrightarrow> 1 \<le> k'"
    and r': "rslot P \<in> set is \<and> 1 \<le> k1 \<longrightarrow> k' = 2"
    by blast
  have "sslot P \<in> set (i # is) \<longrightarrow> 1 \<le> k'"
    using s s' le le' by (cases "k = 0") auto
  moreover have "rslot P \<in> set (i # is) \<and> 1 \<le> k \<longrightarrow> k' = 2"
    using r r' le le' phase_le2 [OF ph'] phase_le2 [OF ph1] by (cases "k = 1") auto
  ultimately show ?case
    using eq res ph' le le' by auto
qed

lemma second_pass_phase:
  assumes "phase K P k st" and "\<forall>i\<in>set is. i \<le> MAX_NPROCESS"
  shows "\<exists>d k' st'. second_pass K now is n st = Inr (d, st') \<and> phase K P k' st' \<and> k \<le> k'
    \<and> (d = n \<or> d \<in> set is)"
  using assms
proof (induction "is" arbitrary: st k)
  case Nil
  then show ?case by auto
next
  case (Cons i "is")
  from Cons.prems(2) have i: "i \<le> MAX_NPROCESS" and rest: "\<forall>i\<in>set is. i \<le> MAX_NPROCESS"
    by simp_all
  from try_step_phase [OF Cons.prems(1) i] obtain k1 st1 where
    step: "try_step K i st = Inr st1" and ph1: "phase K P k1 st1" and le: "k \<le> k1"
    by blast
  from step have "second_pass K now (i # is) n st = Inr (i, st1)
      \<or> second_pass K now (i # is) n st = second_pass K now is n st1"
    by (auto simp: try_step_def Let_def)
  then show ?case
  proof
    assume "second_pass K now (i # is) n st = Inr (i, st1)"
    with ph1 le show ?thesis by auto
  next
    assume eq: "second_pass K now (i # is) n st = second_pass K now is n st1"
    from Cons.IH [OF ph1 rest] obtain d k' st' where
      "second_pass K now is n st1 = Inr (d, st')" "phase K P k' st'" "k1 \<le> k'"
      "d = n \<or> d \<in> set is"
      by blast
    with eq le show ?thesis by auto
  qed
qed

lemma yield_prepare_table:
  assumes "yield_prepare K st = (now, s3)"
  shows "pid (proc_set s3 j) = pid (proc_set st j)"
    and "status (proc_set s3 j) =
          (if curr_status st = PROC_RUNNING \<and> find_pid st (curr_pid st) = Some j
           then PROC_RUNNABLE else status (proc_set st j))"
    and "curr_proc_idx s3 = curr_proc_idx st"
proof -
  define s1 where "s1 = (if curr_status st = PROC_RUNNING then proc_set_runnable (curr_pid st) st else st)"
  from assms have p: "proc_set s3 = proc_set (mlfq_reset_level K s1)"
    and c: "curr_proc_idx s3 = curr_proc_idx (mlfq_reset_level K s1)"
    by (auto simp: yield_prepare_def s1_def mtime_get_def Let_def curr_proc_idx_def)
  have c1: "curr_proc_idx (mlfq_reset_level K s1) = curr_proc_idx s1"
    by (auto simp: mlfq_reset_level_def mtime_get_def Let_def curr_proc_idx_def
        split: option.splits)
  show "pid (proc_set s3 j) = pid (proc_set st j)"
    by (simp add: p s1_def)
  show "status (proc_set s3 j) =
          (if curr_status st = PROC_RUNNING \<and> find_pid st (curr_pid st) = Some j
           then PROC_RUNNABLE else status (proc_set st j))"
    by (simp add: p s1_def status_proc_set_runnable)
  show "curr_proc_idx s3 = curr_proc_idx st"
    unfolding c c1 by (simp add: s1_def curr_proc_idx_def)
qed

lemma yield_prepare_phase:
  assumes ph: "phase K P k st" and prep: "yield_prepare K st = (now, s3)"
  shows "phase K P k s3"
proof -
  note ok = phase_pair [OF ph]
  note t = yield_prepare_table [OF prep]
  note pcb = yield_prepare_pcb [OF prep]
  from ok have cur: "curr_proc_idx st \<le> MAX_NPROCESS" by (simp add: pair_ok_def)
  have k2: "k = 2"
    if r: "curr_status st = PROC_RUNNING" and f: "find_pid st (curr_pid st) = Some j"
      and j: "j = sslot P \<or> j = rslot P" for j
  proof (rule ccontr)
    assume n: "k \<noteq> 2"
    from f have "pid (proc_set st j) = pid (proc_set st (curr_proc_idx st))"
      by (simp add: find_pid_Some curr_pid_def)
    with j ok have "pid (proc_set st (curr_proc_idx st)) = spid P \<and> j = sslot P
        \<or> pid (proc_set st (curr_proc_idx st)) = rpid P \<and> j = rslot P"
      by (auto simp: pair_ok_def)
    with pair_slot [OF ok cur] have "curr_proc_idx st = j" by auto
    with r phase_blocked [OF ph n j] show False
      by (simp add: curr_status_def)
  qed
  have "env_step P k st s3"
    unfolding env_step_def t(1,3)
    using cur k2 by (auto simp: t(2) pcb(1,3) unblocked_def)
  with ph show ?thesis by (rule env_phase)
qed

lemma yield_dispatch_phase:
  assumes ph: "phase K P k st" and d: "d \<le> MAX_NPROCESS" "schedulable (proc_set st d)"
  shows "phase K P k (yield_dispatch K d st)"
proof -
  note ok = phase_pair [OF ph]
  have k2: "k = 2"
    if f: "find_pid st (pid (proc_set st d)) = Some j" and j: "j = sslot P \<or> j = rslot P" for j
  proof (rule ccontr)
    assume n: "k \<noteq> 2"
    from f have "pid (proc_set st j) = pid (proc_set st d)"
      by (simp add: find_pid_Some)
    with j ok have "pid (proc_set st d) = spid P \<and> j = sslot P
        \<or> pid (proc_set st d) = rpid P \<and> j = rslot P"
      by (auto simp: pair_ok_def)
    with pair_slot [OF ok d(1)] have "d = j" by auto
    with d(2) phase_blocked [OF ph n j] show False
      by (simp add: schedulable_def)
  qed
  have "env_step P k st (yield_dispatch K d st)"
    unfolding env_step_def
    using d(1) k2
    by (auto simp: status_yield_dispatch pid_yield_dispatch yield_dispatch_pcb(1,3) unblocked_def)
  with ph show ?thesis by (rule env_phase)
qed

lemma yield_idle_phase:
  assumes "phase K P k st"
  shows "phase K P k (yield_idle st)"
proof -
  have "env_step P k st (yield_idle st)"
    by (simp add: env_step_def)
  with assms show ?thesis by (rule env_phase)
qed

lemma proc_yield_phase:
  assumes "phase K P k st"
  shows "\<exists>k' st'. proc_yield K st = Inr st' \<and> phase K P k' st' \<and> k \<le> k' \<and> 1 \<le> k'
    \<and> (1 \<le> k \<longrightarrow> k' = 2)"
proof -
  obtain now s3 where prep: "yield_prepare K st = (now, s3)"
    by (cases "yield_prepare K st")
  from assms prep have ph3: "phase K P k s3"
    by (rule yield_prepare_phase)
  have bnd: "\<forall>i\<in>set [1..<Suc MAX_NPROCESS]. i \<le> MAX_NPROCESS"
    by (simp add: in_yield_slots del: upt_Suc)
  from phase_pair [OF assms] have "sslot P \<in> set [1..<Suc MAX_NPROCESS]"
    and "rslot P \<in> set [1..<Suc MAX_NPROCESS]"
    by (simp_all add: pair_ok_def in_yield_slots del: upt_Suc)
  with first_pass_phase [OF ph3 bnd, of now MAX_NPROCESS MLFQ_LEVELS]
  obtain d1 k1 s4 where
    fp: "first_pass K now [1..<Suc MAX_NPROCESS] MAX_NPROCESS MLFQ_LEVELS s3 = Inr (d1, s4)"
    and ph4: "phase K P k1 s4" and k1: "k \<le> k1" "1 \<le> k1" "1 \<le> k \<longrightarrow> k1 = 2"
    by blast
  have sel_eq: "yield_select K st =
      (if d1 = MAX_NPROCESS then second_pass K now [1..<Suc MAX_NPROCESS] d1 s4
       else Inr (d1, s4))"
    unfolding yield_select_def prep Let_def prod.case fp sum.case ..
  have "\<exists>d k' s5. yield_select K st = Inr (d, s5) \<and> phase K P k' s5 \<and> k1 \<le> k'"
  proof (cases "d1 = MAX_NPROCESS")
    case True
    from second_pass_phase [OF ph4 bnd, of now MAX_NPROCESS]
    obtain d k' s5 where
      sp: "second_pass K now [1..<Suc MAX_NPROCESS] MAX_NPROCESS s4 = Inr (d, s5)"
      and "phase K P k' s5" "k1 \<le> k'"
      by blast
    moreover from True sp have "yield_select K st = Inr (d, s5)"
      by (simp only: sel_eq simp_thms if_True)
    ultimately show ?thesis by blast
  next
    case False
    then have "yield_select K st = Inr (d1, s4)"
      by (simp only: sel_eq simp_thms if_False)
    with ph4 show ?thesis by blast
  qed
  then obtain d k' s5 where sel: "yield_select K st = Inr (d, s5)"
    and ph5: "phase K P k' s5" and k': "k1 \<le> k'"
    by blast
  show ?thesis
  proof (cases "d < MAX_NPROCESS")
    case True
    with sel have y: "proc_yield K st = Inr (yield_dispatch K d s5)"
      unfolding proc_yield_def by simp
    from True yield_select_facts(2) [OF sel prep] have "schedulable (proc_set s5 d)"
      by (simp add: awake_def)
    with ph5 True have "phase K P k' (yield_dispatch K d s5)"
      by (intro yield_dispatch_phase) simp_all
    moreover from k1 k' phase_le2 [OF ph5] have "k \<le> k'" "1 \<le> k'" "1 \<le> k \<longrightarrow> k' = 2"
      by auto
    ultimately show ?thesis
      using y by blast
  next
    case False
    with sel have y: "proc_yield K st = Inr (yield_idle s5)"
      unfolding proc_yield_def by simp
    from ph5 have "phase K P k' (yield_idle s5)"
      by (rule yield_idle_phase)
    moreover from k1 k' phase_le2 [OF ph5] have "k \<le> k'" "1 \<le> k'" "1 \<le> k \<longrightarrow> k' = 2"
      by auto
    ultimately show ?thesis
      using y by blast
  qed
qed

lemma yields_phase:
  assumes "phase K P k st" and "1 \<le> k"
  shows "\<exists>fin. yields K (Suc n) st = Inr fin \<and> phase K P 2 fin"
  using assms
proof (induction n arbitrary: k st)
  case 0
  from proc_yield_phase [OF 0(1)] 0(2) show ?case
    by auto
next
  case (Suc n)
  from proc_yield_phase [OF Suc.prems(1)] Suc.prems(2) obtain st1 where
    y: "proc_yield K st = Inr st1" and ph: "phase K P 2 st1"
    by blast
  from Suc.IH [OF ph] obtain fin where "yields K (Suc n) st1 = Inr fin" and "phase K P 2 fin"
    by auto
  with y show ?case
    by simp
qed

lemma yields_delivers:
  assumes "phase K P k st"
  shows "\<exists>fin. (case proc_yield K st of Inl e \<Rightarrow> Inl e | Inr s \<Rightarrow> yields K (Suc n) s) = Inr fin
    \<and> delivered P fin"
proof -
  from proc_yield_phase [OF assms] obtain k1 st1 where
    y1: "proc_yield K st = Inr st1" and ph1: "phase K P k1 st1" and "1 \<le> k1"
    by blast
  from yields_phase [OF ph1 \<open>1 \<le> k1\<close>, of n] obtain fin where
    "yields K (Suc n) st1 = Inr fin" and "phase K P 2 fin"
    by blast
  then show ?thesis
    using y1 by (auto dest: phase_delivered)
qed

lemma status_proc_set_pending:
  "status (proc_set (proc_set_pending p s) j) =
     (if find_pid s p = Some j then PROC_PENDING_SYSCALL else status (proc_set s j))"
  by (cases "find_pid s p"; cases "j = the (find_pid s p)")
     (auto simp: proc_set_pending_def Let_def account_runtime_same account_runtime_other)

lemma pid_proc_set_pending [simp]:
  "pid (proc_set (proc_set_pending p s) j) = pid (proc_set s j)"
  by (cases "find_pid s p"; cases "j = the (find_pid s p)")
     (auto simp: proc_set_pending_def Let_def account_runtime_same account_runtime_other)

lemma syscall_proc_set_pending [simp]:
  "syscall (proc_set (proc_set_pending p s) j) = syscall (proc_set s j)"
  by (cases "find_pid s p"; cases "j = the (find_pid s p)")
     (auto simp: proc_set_pending_def Let_def account_runtime_same account_runtime_other)

lemma wakeup_time_proc_set_pending [simp]:
  "wakeup_time (proc_set (proc_set_pending p s) j) = wakeup_time (proc_set s j)"
  by (cases "find_pid s p"; cases "j = the (find_pid s p)")
     (auto simp: proc_set_pending_def Let_def account_runtime_same account_runtime_other)

lemma proc_set_pending_core [simp]:
  "core_in_kernel (proc_set_pending p s) = core_in_kernel s"
  "core_to_proc_idx (proc_set_pending p s) = core_to_proc_idx s"
  by (auto simp: proc_set_pending_def account_runtime_def mtime_get_def Let_def
      split: option.splits)

lemma excp_entry_posted:
  "8 \<le> excp_id \<Longrightarrow> excp_id \<le> 11 \<Longrightarrow>
   excp_entry K excp_id user_syscall s =
     (case proc_try_syscall K (curr_proc_idx s) (posted user_syscall s) of
        Inl e \<Rightarrow> Inl e | Inr s4 \<Rightarrow> proc_yield K s4)"
  by (simp add: excp_entry_def posted_def Let_def)

lemma posted_pcb:
  assumes "pair_ok P st" and "curr_proc_idx st = c" and "c = sslot P \<or> c = rslot P"
  shows "pid (proc_set (posted rec st) j) = pid (proc_set st j)"
    and "wakeup_time (proc_set (posted rec st) j) = wakeup_time (proc_set st j)"
    and "syscall (proc_set (posted rec st) j) =
          (if j = c then rec\<lparr>sstatus := PENDING\<rparr> else syscall (proc_set st j))"
    and "status (proc_set (posted rec st) j) =
          (if j = c then PROC_PENDING_SYSCALL else status (proc_set st j))"
    and "curr_proc_idx (posted rec st) = c"
proof -
  define s1 where "s1 = set_proc c ((proc_set st c)\<lparr>syscall := rec\<lparr>sstatus := PENDING\<rparr>\<rparr>) st"
  have cp: "curr_pid s1 = pid (proc_set st c)"
    using assms(2) by (simp add: s1_def curr_pid_def curr_proc_idx_def)
  have fs: "find_pid s1 p = find_pid st p" for p
    unfolding s1_def by (rule find_pid_set_proc) simp
  from assms(1,3) have "pid (proc_set st c) = spid P \<and> c = sslot P
      \<or> pid (proc_set st c) = rpid P \<and> c = rslot P"
    by (auto simp: pair_ok_def)
  with pair_find_pid [OF assms(1)] cp have f: "find_pid s1 (curr_pid s1) = Some c"
    by (auto simp: fs)
  have p: "proc_set (posted rec st) =
      (proc_set (proc_set_pending (curr_pid s1) s1))
        (c := (proc_set (proc_set_pending (curr_pid s1) s1) c)\<lparr>
           mepc := mepc (proc_set (proc_set_pending (curr_pid s1) s1) c) + 4\<rparr>)"
    using assms(2) by (simp add: posted_def Let_def s1_def)
  show "pid (proc_set (posted rec st) j) = pid (proc_set st j)"
    and "wakeup_time (proc_set (posted rec st) j) = wakeup_time (proc_set st j)"
    and "syscall (proc_set (posted rec st) j) =
          (if j = c then rec\<lparr>sstatus := PENDING\<rparr> else syscall (proc_set st j))"
    and "status (proc_set (posted rec st) j) =
          (if j = c then PROC_PENDING_SYSCALL else status (proc_set st j))"
    using f by (auto simp: p status_proc_set_pending) (auto simp: s1_def)
  show "curr_proc_idx (posted rec st) = c"
    using assms(2) by (simp add: posted_def Let_def curr_proc_idx_def)
qed

lemma posted_pair_ok:
  assumes "pair_ok P st" and "curr_proc_idx st = c" and "c = sslot P \<or> c = rslot P"
  shows "pair_ok P (posted rec st)"
proof -
  note pcb = posted_pcb [OF assms, of rec]
  from assms(1) have a: "curr_proc_idx st \<le> MAX_NPROCESS"
    "wakeup_time (proc_set st (sslot P)) = 0" "wakeup_time (proc_set st (rslot P)) = 0"
    by (simp_all add: pair_ok_def)
  from assms(1) show ?thesis
    by (rule pair_ok_keep) (use a assms(2,3) in \<open>auto simp: pcb\<close>)
qed

lemma post_recv_phase:
  assumes "pair_ok P st" and "length (msg P) = SYSCALL_MSG_LEN K"
    and "sending P (proc_set st (sslot P))" and "curr_proc_idx st = rslot P"
    and "stype recv_rec = SYS_RECV"
    and "sender recv_rec = GPID_ALL K \<or> sender recv_rec = spid P"
    and "length (content recv_rec) = SYSCALL_MSG_LEN K"
  shows "phase K P 0 (posted recv_rec st)"
    and "proc_try_syscall K (rslot P) (posted recv_rec st) = Inr (posted recv_rec st)"
proof -
  note pcb = posted_pcb [OF assms(1,4), of recv_rec]
  from assms(1) have ne: "sslot P \<noteq> rslot P" by (simp add: pair_ok_def)
  have ok: "pair_ok P (posted recv_rec st)"
    using assms(1,4) by (rule posted_pair_ok) simp
  show ph: "phase K P 0 (posted recv_rec st)"
    using ok assms(2,3,5,6,7) ne
    by (simp add: phase_def sending_def receiving_def pcb)
  from try_step_receiver_0 [OF ph] ph
  show "proc_try_syscall K (rslot P) (posted recv_rec st) = Inr (posted recv_rec st)"
    by (simp add: try_step_def phase_def receiving_def)
qed

lemma post_send_phase:
  assumes "pair_ok P st" and "length (msg P) = SYSCALL_MSG_LEN K"
    and "receiving K P (proc_set st (rslot P))" and "curr_proc_idx st = sslot P"
    and "stype send_rec = SYS_SEND" and "receiver send_rec = rpid P"
    and "content send_rec = msg P"
  shows "\<exists>st1. proc_try_syscall K (sslot P) (posted send_rec st) = Inr st1 \<and> phase K P 1 st1"
proof -
  note pcb = posted_pcb [OF assms(1,4), of send_rec]
  from assms(1) have ne: "sslot P \<noteq> rslot P" by (simp add: pair_ok_def)
  have ok: "pair_ok P (posted send_rec st)"
    using assms(1,4) by (rule posted_pair_ok) simp
  have ph: "phase K P 0 (posted send_rec st)"
    using ok assms(2,3,5,6,7) ne
    by (simp add: phase_def sending_def receiving_def pcb)
  from try_step_sender_0 [OF ph] ph show ?thesis
    by (simp add: try_step_def phase_def sending_def)
qed

lemma crowd_simps [simp]:
  "proc_set (crowd s1 p5 c r h) i =
     (if i = 5 then p5
      else if i = 2 then proc_zero\<lparr>pid := 2, syscall := send_hi, status := PROC_PENDING_SYSCALL\<rparr>
      else if i = 1 then proc_zero\<lparr>pid := 1, syscall := send_yo, status := s1\<rparr>
      else proc_zero)"
  "mtime_reads (crowd s1 p5 c r h) = r"
  "mtime (crowd s1 p5 c r h) k = 5000"
  "MLFQ_last_reset_time (crowd s1 p5 c r h) = 0"
  "tty_input_empty (crowd s1 p5 c r h)"
  "core_in_kernel (crowd s1 p5 c r h) = 0"
  "core_to_proc_idx (crowd s1 p5 c r h) k = (if k = 0 then c else 0)"
  "hal (crowd s1 p5 c r h) = h"
  by (simp_all add: crowd_def kstate_zero_def)

lemma rcv_simps [simp]:
  "pid (rcv sc st) = 5" "syscall (rcv sc st) = sc" "status (rcv sc st) = st"
  "wakeup_time (rcv sc st) = 0" "queue_level (rcv sc st) = 0"
  "last_schedule_time (rcv sc st) = 0" "first_schedule_time (rcv sc st) = 0"
  by (simp_all add: rcv_def proc_zero_def)

lemma yo_simps [simp]:
  "stype send_yo = SYS_SEND" "receiver send_yo = 5" "sstatus send_yo = PENDING"
  "stype recv_yo = SYS_RECV" "sender recv_yo = 1" "sstatus recv_yo = DONE"
  by (simp_all add: send_yo_def recv_yo_def)

lemmas crowd_defs = crowd_def rcv_def ran_def kstate_zero_def proc_zero_def send_hi_def recv_any_def
  send_yo_def recv_yo_def set_proc_def earth_def egos_def memcpy_def

lemma posted_crowded:
  "posted recv_any crowded = crowd PROC_PENDING_SYSCALL (rcv recv_any PROC_PENDING_SYSCALL) 5 0 []"
  unfolding posted_def Let_def proc_set_pending_def find_pid_def scan_slots account_runtime_def
  by (simp add: crowded_def curr_proc_idx_def curr_pid_def proc_zero_def del: One_nat_def)
     (simp add: crowd_defs fun_eq_iff)

lemma prepare_crowd:
  "status p5 \<noteq> PROC_RUNNING \<Longrightarrow> yield_prepare egos (crowd s1 p5 5 0 h) = (5000, crowd s1 p5 5 2 h)"
  unfolding yield_prepare_def mlfq_reset_level_def
  by (auto simp: curr_status_def curr_proc_idx_def mtime_get_def MLFQ_RESET_PERIOD_def Let_def)
     (auto simp: crowd_def)

lemma wake_and_try_crowd_1:
  "wake_and_try egos 5000 1
      (crowd PROC_PENDING_SYSCALL (rcv recv_any PROC_PENDING_SYSCALL) c r h)
     = Inr (crowd PROC_PENDING_SYSCALL (rcv recv_yo PROC_PENDING_SYSCALL) c r h)"
  unfolding wake_and_try_def proc_try_syscall_def proc_try_send_def scan_slots
  by (simp add: proc_zero_def send_yo_def recv_any_def egos_def del: One_nat_def)
     (simp add: crowd_defs fun_eq_iff)

lemma wake_and_try_crowd_2:
  "pid p5 = 5 \<Longrightarrow> status p5 \<noteq> PROC_UNUSED \<Longrightarrow> sstatus (syscall p5) = DONE
    \<Longrightarrow> wake_and_try egos 5000 2 (crowd s1 p5 c r h) = Inr (crowd s1 p5 c r h)"
  unfolding wake_and_try_def proc_try_syscall_def proc_try_send_def scan_slots
  by (simp add: proc_zero_def send_yo_def send_hi_def egos_def del: One_nat_def)

lemma wake_and_try_crowd_5:
  "wake_and_try egos 5000 5
      (crowd PROC_PENDING_SYSCALL (rcv recv_yo PROC_PENDING_SYSCALL) c r h)
     = Inr (crowd PROC_RUNNABLE (rcv recv_yo PROC_RUNNABLE) c r (h @ [MMU_COPY_OUT 5 recv_yo]))"
  unfolding wake_and_try_def proc_try_syscall_def proc_try_recv_def proc_set_runnable_def
    find_pid_def scan_slots account_runtime_def
  by (simp add: proc_zero_def del: One_nat_def)
     (simp add: crowd_defs fun_eq_iff)

lemma first_pass_crowded:
  "first_pass egos 5000 [1..<Suc MAX_NPROCESS] MAX_NPROCESS MLFQ_LEVELS
      (crowd PROC_PENDING_SYSCALL (rcv recv_any PROC_PENDING_SYSCALL) c r h)
     = Inr (5, crowd PROC_RUNNABLE (rcv recv_yo PROC_RUNNABLE) c r (h @ [MMU_COPY_OUT 5 recv_yo]))"
  unfolding yield_slots
  by (simp add: first_pass_pending [OF wake_and_try_crowd_1]
      first_pass_pending [OF wake_and_try_crowd_2]
      first_pass_pending [OF wake_and_try_crowd_5] first_pass_skip first_pass_schedulable
      sleeping_def schedulable_def MLFQ_LEVELS_def MAX_NPROCESS_def
      del: first_pass.simps(2) One_nat_def)

lemma ran_simps [simp]:
  "pid (ran st) = 5" "syscall (ran st) = recv_yo" "status (ran st) = st"
  "wakeup_time (ran st) = 0" "queue_level (ran st) = 0"
  by (simp_all add: ran_def proc_zero_def)

lemma dispatch_crowd:
  "yield_dispatch egos 5 (crowd PROC_RUNNABLE (rcv recv_yo PROC_RUNNABLE) c r h)
     = crowd PROC_RUNNABLE (ran PROC_RUNNING) 5 (r + 3)
         (h @ [SET_MPP_USER, MMU_SWITCH 5, MMU_FLUSH_CACHE, TIMER_RESET 0])"
  unfolding yield_dispatch_def proc_set_running_def find_pid_def scan_slots
  by (simp add: mtime_get_def curr_pid_def curr_proc_idx_def curr_status_def proc_zero_def
      egos_def rcv_def del: One_nat_def)
     (simp add: crowd_defs fun_eq_iff)

lemma excp_entry_crowded:
  "excp_entry egos 8 recv_any crowded
     = Inr (crowd PROC_RUNNABLE (ran PROC_RUNNING) 5 5
         [MMU_COPY_OUT 5 recv_yo, SET_MPP_USER, MMU_SWITCH 5, MMU_FLUSH_CACHE, TIMER_RESET 0])"
proof -
  have c: "curr_proc_idx crowded = 5"
    by (simp add: crowded_def curr_proc_idx_def)
  have t: "proc_try_syscall egos 5 (crowd PROC_PENDING_SYSCALL (rcv recv_any PROC_PENDING_SYSCALL) 5 0 [])
      = Inr (crowd PROC_PENDING_SYSCALL (rcv recv_any PROC_PENDING_SYSCALL) 5 0 [])"
    by (simp add: proc_try_syscall_def proc_try_recv_def)
  have y: "proc_yield egos (crowd PROC_PENDING_SYSCALL (rcv recv_any PROC_PENDING_SYSCALL) 5 0 [])
      = Inr (crowd PROC_RUNNABLE (ran PROC_RUNNING) 5 5
         [MMU_COPY_OUT 5 recv_yo, SET_MPP_USER, MMU_SWITCH 5, MMU_FLUSH_CACHE, TIMER_RESET 0])"
    unfolding proc_yield_def yield_select_def Let_def
    by (simp add: prepare_crowd first_pass_crowded dispatch_crowd del: upt_Suc One_nat_def)
       (simp add: MAX_NPROCESS_def)
  show ?thesis
    by (simp add: excp_entry_posted c posted_crowded t y)
qed

lemma prepare_crowd_running:
  "yield_prepare egos (crowd s1 (ran PROC_RUNNING) 5 r h)
     = (5000, crowd s1 (ran PROC_RUNNABLE) 5 (r + 3) h)"
  unfolding yield_prepare_def mlfq_reset_level_def proc_set_runnable_def find_pid_def scan_slots
    account_runtime_def mlfq_update_level_def
  by (simp add: curr_status_def curr_proc_idx_def curr_pid_def mtime_get_def
      MLFQ_RESET_PERIOD_def MLFQ_NLEVELS_def MLFQ_LEVEL_RUNTIME_def Let_def proc_zero_def
      del: One_nat_def)
     (simp add: crowd_defs fun_eq_iff)

lemma first_pass_crowd_again:
  "first_pass egos 5000 [1..<Suc MAX_NPROCESS] MAX_NPROCESS MLFQ_LEVELS
      (crowd PROC_RUNNABLE (ran PROC_RUNNABLE) c r h)
     = Inr (1, crowd PROC_RUNNABLE (ran PROC_RUNNABLE) c r h)"
  unfolding yield_slots
  by (simp add: first_pass_pending [OF wake_and_try_crowd_2] first_pass_skip
      first_pass_schedulable sleeping_def schedulable_def MLFQ_LEVELS_def MAX_NPROCESS_def
      del: first_pass.simps(2) One_nat_def)

lemma yield_crowd_again:
  "proc_yield egos (crowd PROC_RUNNABLE (ran PROC_RUNNING) 5 r h)
     = Inr (yield_dispatch egos 1 (crowd PROC_RUNNABLE (ran PROC_RUNNABLE) 5 (r + 3) h))"
  unfolding proc_yield_def yield_select_def Let_def
  by (simp add: prepare_crowd_running first_pass_crowd_again del: upt_Suc One_nat_def)
     (simp add: MAX_NPROCESS_def)

section \<open>The operations keep the table\<close>

text \<open>
  \<open>table_ok\<close> holds of the empty table and is kept by the status helpers, by \<^verbatim>\<open>proc_sleep\<close>
  and \<^verbatim>\<open>proc_free\<close>, by \<^verbatim>\<open>proc_yield\<close> and by both entries of the kernel; \<^verbatim>\<open>proc_alloc\<close>
  keeps it as long as the pid it takes from its counter is in no slot.
\<close>

lemma table_ok_write:
  assumes ok: "table_ok s" and pd: "\<And>j. pid (proc_set s' j) = pid (proc_set s j)"
    and top: "status (proc_set s' MAX_NPROCESS) = status (proc_set s MAX_NPROCESS)"
    and low: "\<And>j. j < MAX_NPROCESS \<Longrightarrow> status (proc_set s' j) \<noteq> PROC_UNUSED \<Longrightarrow>
       status (proc_set s j) \<noteq> PROC_UNUSED \<or> find_pid s (pid (proc_set s j)) = Some j"
  shows "table_ok s'"
proof -
  have f: "find_pid s' p = find_pid s p" for p
    unfolding find_pid_def by (rule find_cong) (simp_all add: pd)
  from ok top low show ?thesis
    unfolding table_ok_iff f pd by auto
qed

lemma table_ok_kstate_zero: "table_ok kstate_zero"
  by (simp add: table_ok_iff kstate_zero_def proc_zero_def)

lemma table_ok_proc_set_ready: "table_ok s \<Longrightarrow> table_ok (proc_set_ready p s)"
  by (erule table_ok_write)
     (auto simp: proc_set_ready_def find_pid_Some split: option.splits if_splits)

lemma table_ok_proc_set_running: "table_ok s \<Longrightarrow> table_ok (proc_set_running p s)"
  by (erule table_ok_write)
     (auto simp: status_proc_set_running find_pid_Some split: if_splits)

lemma table_ok_proc_set_runnable: "table_ok s \<Longrightarrow> table_ok (proc_set_runnable p s)"
  by (rule table_ok_rel [OF ipc_rel_proc_set_runnable])

lemma table_ok_proc_set_pending: "table_ok s \<Longrightarrow> table_ok (proc_set_pending p s)"
  by (erule table_ok_write)
     (auto simp: status_proc_set_pending find_pid_Some split: if_splits)

lemma table_ok_proc_sleep: "table_ok s \<Longrightarrow> table_ok (proc_sleep p usec s)"
  by (erule table_ok_write)
     (auto simp: proc_sleep_def mtime_get_def Let_def find_upt_Some
        split: option.splits if_splits)

lemma free_all_step_pcb:
  "pid (proc_set (free_all_step K i s) j) = pid (proc_set s j)"
  "status (proc_set (free_all_step K i s) j) = status (proc_set s j)
    \<or> (j = i \<and> status (proc_set (free_all_step K i s) j) = PROC_UNUSED)"
  by (auto simp: free_all_step_def free_one_def mtime_get_def Let_def)

lemma fold_free_all_pcb:
  "pid (proc_set (fold (free_all_step K) is s) j) = pid (proc_set s j)
   \<and> (status (proc_set (fold (free_all_step K) is s) j) = status (proc_set s j)
      \<or> (j \<in> set is \<and> status (proc_set (fold (free_all_step K) is s) j) = PROC_UNUSED))"
proof (induction "is" arbitrary: s)
  case Nil
  then show ?case by simp
next
  case (Cons i "is")
  from Cons.IH [of "free_all_step K i s"] free_all_step_pcb [of K i s j]
  show ?case by auto
qed

lemma proc_free_pcb:
  "pid (proc_set (proc_free K p s) j) = pid (proc_set s j)"
  "status (proc_set (proc_free K p s) j) = status (proc_set s j)
    \<or> (j < MAX_NPROCESS \<and> status (proc_set (proc_free K p s) j) = PROC_UNUSED)"
proof -
  show "pid (proc_set (proc_free K p s) j) = pid (proc_set s j)"
    using fold_free_all_pcb [of K "[0..<MAX_NPROCESS]" s j]
    by (auto simp: proc_free_def proc_set_status_def free_one_def mtime_get_def Let_def
        split: option.splits)
  show "status (proc_set (proc_free K p s) j) = status (proc_set s j)
    \<or> (j < MAX_NPROCESS \<and> status (proc_set (proc_free K p s) j) = PROC_UNUSED)"
    using fold_free_all_pcb [of K "[0..<MAX_NPROCESS]" s j]
    by (auto simp: proc_free_def proc_set_status_def free_one_def mtime_get_def Let_def
        split: option.splits)
qed

lemma table_ok_proc_free: "table_ok s \<Longrightarrow> table_ok (proc_free K p s)"
proof (erule table_ok_write)
  fix j
  show "pid (proc_set (proc_free K p s) j) = pid (proc_set s j)"
    by (rule proc_free_pcb)
  show "status (proc_set (proc_free K p s) MAX_NPROCESS) = status (proc_set s MAX_NPROCESS)"
    using proc_free_pcb(2) [of K p s MAX_NPROCESS] by auto
  show "status (proc_set (proc_free K p s) j) \<noteq> PROC_UNUSED \<Longrightarrow>
       status (proc_set s j) \<noteq> PROC_UNUSED \<or> find_pid s (pid (proc_set s j)) = Some j"
    using proc_free_pcb(2) [of K p s j] by auto
qed

lemma table_ok_proc_alloc:
  assumes "table_ok s" and "proc_alloc s = Inr (p, s')"
    and fresh: "\<forall>j<MAX_NPROCESS. pid (proc_set s j) \<noteq> sint (alloc_curr_pid s + 1)"
  shows "table_ok s'"
proof -
  from assms(2) obtain i where
    i: "find (\<lambda>i. status (proc_set s i) = PROC_UNUSED) [1..<Suc MAX_NPROCESS] = Some i"
    by (auto simp: proc_alloc_def split: option.splits)
  then have ir: "i \<in> set [1..<Suc MAX_NPROCESS]" and iu: "status (proc_set s i) = PROC_UNUSED"
    by (auto simp: find_Some_iff simp del: upt_Suc)
  from ir have il: "1 \<le> i" "i \<le> MAX_NPROCESS"
    by (simp_all add: in_yield_slots del: upt_Suc)
  from assms(2) i have pcb: "pid (proc_set s' j) = (if j = i then sint (alloc_curr_pid s + 1) else pid (proc_set s j))"
    "status (proc_set s' j) = (if j = i then PROC_LOADING else status (proc_set s j))" for j
    by (auto simp: proc_alloc_def mtime_get_def Let_def simp del: upt_Suc)
  have f: "find_pid s' (pid (proc_set s' j)) = Some j"
    if j: "j < MAX_NPROCESS" "status (proc_set s' j) \<noteq> PROC_UNUSED" for j
  proof (cases "j = i")
    case True
    with j fresh show ?thesis
      unfolding find_pid_Some by (auto simp: pcb)
  next
    case False
    with j assms(1) iu have "find_pid s (pid (proc_set s j)) = Some j"
      by (auto simp: table_ok_iff pcb)
    with False j fresh show ?thesis
      unfolding find_pid_Some by (auto simp: pcb)
  qed
  from assms(1) iu have "status (proc_set s' MAX_NPROCESS) = PROC_UNUSED
      \<or> status (proc_set s' MAX_NPROCESS) = PROC_LOADING"
    by (auto simp: table_ok_iff pcb)
  with f show ?thesis
    unfolding table_ok_iff by blast
qed

lemma table_ok_yield_dispatch: "table_ok s \<Longrightarrow> table_ok (yield_dispatch K d s)"
  by (erule table_ok_write)
     (auto simp: status_yield_dispatch pid_yield_dispatch find_pid_Some split: if_splits)

lemma table_ok_proc_yield:
  assumes "table_ok s" and "proc_yield K s = Inr s'"
  shows "table_ok s'"
proof -
  obtain now s3 where prep: "yield_prepare K s = (now, s3)"
    by (cases "yield_prepare K s")
  from assms(2) obtain d s5 where sel: "yield_select K s = Inr (d, s5)"
    and s': "s' = (if d < MAX_NPROCESS then yield_dispatch K d s5 else yield_idle s5)"
    unfolding proc_yield_def by (auto split: sum.splits if_splits)
  from yield_select_table(1) [OF assms(1) prep sel] have t5: "table_ok s5" .
  then have "table_ok (yield_idle s5)"
    by (rule table_ok_write) simp_all
  with t5 show ?thesis
    by (simp add: s' table_ok_yield_dispatch)
qed

lemma table_ok_excp_entry:
  assumes "table_ok s" and "excp_entry K excp_id user_syscall s = Inr s'"
  shows "table_ok s'"
proof (cases "8 \<le> excp_id \<and> excp_id \<le> 11")
  case True
  define s1 where "s1 = set_proc (curr_proc_idx s)
      ((proc_set s (curr_proc_idx s))\<lparr>syscall := user_syscall\<lparr>sstatus := PENDING\<rparr>\<rparr>) s"
  have t1: "table_ok s1"
    using assms(1) by (rule table_ok_write) (auto simp: s1_def split: if_splits)
  define s2 where "s2 = proc_set_pending (curr_pid s1) s1"
  from t1 have t2: "table_ok s2"
    unfolding s2_def by (rule table_ok_proc_set_pending)
  have t3: "table_ok (posted user_syscall s)"
    using t2
    by (rule table_ok_write) (auto simp: posted_def Let_def s1_def s2_def split: if_splits)
  from True assms(2) obtain s4 where
    t: "proc_try_syscall K (curr_proc_idx s) (posted user_syscall s) = Inr s4"
    and y: "proc_yield K s4 = Inr s'"
    by (auto simp: excp_entry_posted split: sum.splits)
  from ipc_rel_proc_try_syscall [OF t] t3 have "table_ok s4" by (rule table_ok_rel)
  then show ?thesis using y by (rule table_ok_proc_yield)
next
  case False
  with assms(2) have y: "proc_yield K (proc_free K (curr_pid s)
      (earth (PRINT_KILLED (curr_pid s) excp_id) s)) = Inr s'"
    by (auto simp: excp_entry_def split: if_splits)
  have "table_ok (earth (PRINT_KILLED (curr_pid s) excp_id) s)"
    using assms(1) by (rule table_ok_write) simp_all
  then have "table_ok (proc_free K (curr_pid s) (earth (PRINT_KILLED (curr_pid s) excp_id) s))"
    by (rule table_ok_proc_free)
  then show ?thesis using y by (rule table_ok_proc_yield)
qed

lemma table_ok_intr_entry:
  assumes "table_ok s" and "intr_entry K intr_id s = Inr s'"
  shows "table_ok s'"
proof -
  define s3 where "s3 = (let c = curr_proc_idx s in
      if c > 0 \<and> c \<le> MAX_NPROCESS then
        let s1 = set_proc c ((proc_set s c)\<lparr>
                   timer_interrupt_count := timer_interrupt_count (proc_set s c) + 1\<rparr>) s;
            (current_time, s2) = mtime_get s1;
            p = proc_set s2 c;
            p1 = (if last_schedule_time p > 0
                  then let runtime = current_time - last_schedule_time p
                       in mlfq_update_level
                            (p\<lparr>total_cpu_time := total_cpu_time p + runtime\<rparr>) runtime
                  else p)
        in set_proc c (p1\<lparr>last_schedule_time := current_time\<rparr>) s2
      else s)"
  from assms(2) have y: "proc_yield K s3 = Inr s'"
    by (auto simp: intr_entry_def s3_def Let_def split: if_splits)
  have "table_ok s3"
    using assms(1)
    by (rule table_ok_write)
       (auto simp: s3_def Let_def mtime_get_def mlfq_update_level_def split: if_splits)
  then show ?thesis using y by (rule table_ok_proc_yield)
qed

section \<open>The MLFQ policy\<close>

text \<open>
  C5, as the code has it. Below the bottom level, \<^verbatim>\<open>mlfq_update_level(p, r)\<close> adds \<open>r\<close> to
  \<open>p.queue_time\<close> (in 64-bit arithmetic) and, when the sum has reached the quantum of the
  level, increments \<open>p.queue_level\<close> and resets \<open>p.queue_time\<close> to 0. At the bottom level
  \<open>MLFQ_LEVELS - 1\<close> (and above) it returns at once: the process is not demoted, and \<open>r\<close> is
  not added to its \<open>queue_time\<close> either. For the levels 0 to 4 the quantum is
  \<open>(queue_level + 1) * 100000\<close> microseconds, and the level never leaves that range.
\<close>

theorem mlfq_update_level_demotes:
  "(queue_level p < MLFQ_LEVELS - 1 \<and> MLFQ_LEVEL_RUNTIME (queue_level p) \<le> queue_time p + r \<longrightarrow>
      mlfq_update_level p r = p\<lparr>queue_level := queue_level p + 1, queue_time := 0\<rparr>)
   \<and> (queue_level p < MLFQ_LEVELS - 1 \<and> queue_time p + r < MLFQ_LEVEL_RUNTIME (queue_level p) \<longrightarrow>
      mlfq_update_level p r = p\<lparr>queue_time := queue_time p + r\<rparr>)
   \<and> (queue_level p \<ge> MLFQ_LEVELS - 1 \<longrightarrow> mlfq_update_level p r = p)
   \<and> (0 \<le> queue_level p \<and> queue_level p < MLFQ_LEVELS \<longrightarrow>
        unat (MLFQ_LEVEL_RUNTIME (queue_level p)) = nat ((queue_level p + 1) * 100000)
        \<and> queue_level p \<le> queue_level (mlfq_update_level p r)
        \<and> queue_level (mlfq_update_level p r) < MLFQ_LEVELS)"
proof -
  have q: "unat (MLFQ_LEVEL_RUNTIME l) = nat ((l + 1) * 100000)" if "0 \<le> l" "l < 5" for l
  proof -
    from that have "l = 0 \<or> l = 1 \<or> l = 2 \<or> l = 3 \<or> l = 4" by arith
    then show ?thesis by (auto simp: MLFQ_LEVEL_RUNTIME_def)
  qed
  show ?thesis
    using q[of "queue_level p"]
    by (auto simp: mlfq_update_level_def MLFQ_LEVELS_def MLFQ_NLEVELS_def Let_def not_le)
qed

theorem mlfq_update_level_demotes_witness:
  "mlfq_update_level (proc_zero\<lparr>queue_time := 99999\<rparr>) 1
     = proc_zero\<lparr>queue_time := 99999, queue_level := 1, queue_time := 0\<rparr>
   \<and> mlfq_update_level (proc_zero\<lparr>queue_level := 3, queue_time := 7\<rparr>) 5
     = proc_zero\<lparr>queue_level := 3, queue_time := 12\<rparr>
   \<and> mlfq_update_level (proc_zero\<lparr>queue_level := 4, queue_time := 7\<rparr>) 5
     = proc_zero\<lparr>queue_level := 4, queue_time := 7\<rparr>
   \<and> queue_level (mlfq_update_level (proc_zero\<lparr>queue_level := 3, queue_time := 399999\<rparr>) 1) = 4"
  using mlfq_update_level_demotes [of "proc_zero\<lparr>queue_time := 99999\<rparr>" 1]
    mlfq_update_level_demotes [of "proc_zero\<lparr>queue_level := 3, queue_time := 7\<rparr>" 5]
    mlfq_update_level_demotes [of "proc_zero\<lparr>queue_level := 4, queue_time := 7\<rparr>" 5]
    mlfq_update_level_demotes [of "proc_zero\<lparr>queue_level := 3, queue_time := 399999\<rparr>" 1]
  by (simp add: proc_zero_def MLFQ_LEVELS_def MLFQ_LEVEL_RUNTIME_def)

theorem mlfq_update_level_bottom_counterexample:
  "queue_time (mlfq_update_level (proc_zero\<lparr>queue_level := 4\<rparr>) 5)
     \<noteq> queue_time (proc_zero\<lparr>queue_level := 4\<rparr>) + 5"
  by (simp add: mlfq_update_level_def proc_zero_def MLFQ_NLEVELS_def)

section \<open>Allocation and the status helpers\<close>

text \<open>
  C3, evaluated where it fails. With the slots 1 to 15 in use, \<^verbatim>\<open>proc_alloc\<close> returns the
  pid 16 and puts the process in slot \<open>MAX_NPROCESS\<close>, in status LOADING. The four helpers
  scan the indices below \<open>MAX_NPROCESS\<close> only: called with that pid, none of them finds the
  PCB, and its status stays LOADING.
\<close>

theorem proc_alloc_last_slot_not_found:
  "(case proc_alloc full15 of
      Inl e \<Rightarrow> False
    | Inr (p, s) \<Rightarrow>
        p = 16 \<and> pid (proc_set s MAX_NPROCESS) = p
        \<and> status (proc_set s MAX_NPROCESS) = PROC_LOADING
        \<and> status (proc_set (proc_set_ready p s) MAX_NPROCESS) = PROC_LOADING
        \<and> status (proc_set (proc_set_running p s) MAX_NPROCESS) = PROC_LOADING
        \<and> status (proc_set (proc_set_runnable p s) MAX_NPROCESS) = PROC_LOADING
        \<and> status (proc_set (proc_set_pending p s) MAX_NPROCESS) = PROC_LOADING)"
  unfolding proc_alloc_def proc_set_ready_def proc_set_running_def proc_set_runnable_def
    proc_set_pending_def find_pid_def yield_slots scan_slots
  by (simp add: full15_def kstate_zero_def proc_zero_def mtime_get_def set_proc_def
      MAX_NPROCESS_def)

text \<open>
  C10. The helpers match a PCB by its pid alone. If slot \<open>i\<close> is the first one that
  \<^verbatim>\<open>proc_set_runnable\<close> scans whose pid field is \<open>p\<close>, then \<^verbatim>\<open>proc_set_runnable(p)\<close> leaves it
  RUNNABLE whatever its status was, UNUSED included; and so does \<^verbatim>\<open>proc_try_recv\<close> on a
  receiver whose completed system call names \<open>p\<close> as the sender.
\<close>

theorem proc_set_runnable_ignores_status:
  assumes "i < MAX_NPROCESS" and "pid (proc_set s i) = p" and "\<forall>j<i. pid (proc_set s j) \<noteq> p"
  shows "status (proc_set (proc_set_runnable p s) i) = PROC_RUNNABLE
       \<and> (sstatus (syscall (proc_set s r)) = DONE \<and> sender (syscall (proc_set s r)) = p \<longrightarrow>
            status (proc_set (proc_try_recv r s) i) = PROC_RUNNABLE)"
proof -
  from assms have "find_pid s p = Some i"
    by (simp add: find_pid_Some)
  then show ?thesis
    by (auto simp: proc_try_recv_def Let_def status_proc_set_runnable)
qed

theorem proc_set_runnable_ignores_status_witness:
  "status (proc_set (proc_free egos 2 stale_sender) 2) = PROC_UNUSED
   \<and> status (proc_set (proc_set_runnable 2 (proc_free egos 2 stale_sender)) 2) = PROC_RUNNABLE
   \<and> status (proc_set (proc_try_recv 1 (proc_free egos 2 stale_sender)) 2) = PROC_RUNNABLE"
  using proc_set_runnable_ignores_status [of 2 "proc_free egos 2 stale_sender" 2 1]
  by (simp add: proc_free_stale_sender less_2_cases_iff MAX_NPROCESS_def)
     (simp add: stale_sender_def kstate_zero_def proc_zero_def)

section \<open>CPU accounting on leaving RUNNING\<close>

text \<open>
  C4, as the code has it. Let slot \<open>i\<close> be the one that the helpers find for the pid \<open>p\<close>,
  and let its status be RUNNING. If its \<open>last_schedule_time\<close> is not 0, then
  \<^verbatim>\<open>proc_set_runnable\<close> and \<^verbatim>\<open>proc_set_pending\<close> add \<open>now - last_schedule_time\<close> to
  \<open>total_cpu_time\<close>, pass the same interval to \<^verbatim>\<open>mlfq_update_level\<close>, and only then change
  the status. If \<open>last_schedule_time\<close> is 0 they change the status and nothing else.
  \<open>now\<close> is the value that \<^verbatim>\<open>mtime_get()\<close> returns in the helper.
\<close>

theorem leaving_running_accounts:
  assumes "find_pid s p = Some i" and "status (proc_set s i) = PROC_RUNNING"
  shows "(0 < last_schedule_time (proc_set s i) \<longrightarrow>
           (let runtime = mtime s (mtime_reads s) - last_schedule_time (proc_set s i);
                accounted = mlfq_update_level
                   ((proc_set s i)\<lparr>total_cpu_time := total_cpu_time (proc_set s i) + runtime\<rparr>)
                   runtime
            in proc_set (proc_set_runnable p s) i = accounted\<lparr>status := PROC_RUNNABLE\<rparr>
             \<and> proc_set (proc_set_pending p s) i = accounted\<lparr>status := PROC_PENDING_SYSCALL\<rparr>
             \<and> total_cpu_time (proc_set (proc_set_runnable p s) i)
                 = total_cpu_time (proc_set s i) + runtime
             \<and> total_cpu_time (proc_set (proc_set_pending p s) i)
                 = total_cpu_time (proc_set s i) + runtime))
       \<and> (last_schedule_time (proc_set s i) = 0 \<longrightarrow>
             proc_set (proc_set_runnable p s) i = (proc_set s i)\<lparr>status := PROC_RUNNABLE\<rparr>
           \<and> proc_set (proc_set_pending p s) i
               = (proc_set s i)\<lparr>status := PROC_PENDING_SYSCALL\<rparr>)"
  using assms
  by (simp add: proc_set_runnable_def proc_set_pending_def account_runtime_same Let_def)

theorem leaving_running_accounts_witness:
  "total_cpu_time (proc_set (proc_set_runnable 7 (running_since 100)) 1) = 440
   \<and> total_cpu_time (proc_set (proc_set_pending 7 (running_since 100)) 1) = 440
   \<and> status (proc_set (proc_set_runnable 7 (running_since 100)) 1) = PROC_RUNNABLE
   \<and> status (proc_set (proc_set_pending 7 (running_since 100)) 1) = PROC_PENDING_SYSCALL
   \<and> proc_set (proc_set_runnable 7 (running_since 0)) 1
        = (proc_set (running_since 0) 1)\<lparr>status := PROC_RUNNABLE\<rparr>
   \<and> proc_set (proc_set_pending 7 (running_since 0)) 1
        = (proc_set (running_since 0) 1)\<lparr>status := PROC_PENDING_SYSCALL\<rparr>"
  using leaving_running_accounts [OF find_pid_running_since, of 100]
    leaving_running_accounts [OF find_pid_running_since, of 0]
  by (simp add: running_since_def kstate_zero_def proc_zero_def Let_def)

text \<open>
  A running process whose \<open>last_schedule_time\<close> is 0 leaves RUNNING at time 500, and its
  \<open>total_cpu_time\<close> is not advanced by \<open>now - last_schedule_time\<close>.
\<close>

theorem leaving_running_unstamped_counterexample:
  "status (proc_set (running_since 0) 1) = PROC_RUNNING
   \<and> status (proc_set (proc_set_runnable 7 (running_since 0)) 1) = PROC_RUNNABLE
   \<and> total_cpu_time (proc_set (proc_set_runnable 7 (running_since 0)) 1)
       \<noteq> total_cpu_time (proc_set (running_since 0) 1)
          + (mtime (running_since 0) (mtime_reads (running_since 0))
             - last_schedule_time (proc_set (running_since 0) 1))"
  by (simp add: proc_set_runnable_def find_pid_running_since account_runtime_same)
     (simp add: running_since_def kstate_zero_def proc_zero_def)

section \<open>The periodic reset\<close>

text \<open>
  C6, as the code has it. Let \<open>now\<close> be the clock value that \<^verbatim>\<open>mlfq_reset_level\<close> reads.
  If \<open>now - MLFQ_last_reset_time\<close> (a 64-bit difference) is at least \<open>MLFQ_RESET_PERIOD\<close>,
  every PCB below index \<open>MAX_NPROCESS\<close> that is not UNUSED gets \<open>queue_level = 0\<close> and
  \<open>queue_time = 0\<close>, and \<open>now\<close> becomes the last reset time. Otherwise the last reset time
  stays, and without terminal input no PCB changes. No call changes a status. The
  timestamp starts at 0, so the first call resets exactly when the clock has reached
  \<open>MLFQ_RESET_PERIOD\<close> by then.
\<close>

theorem mlfq_reset_level_periodic:
  "(MLFQ_RESET_PERIOD \<le> mtime s (mtime_reads s) - MLFQ_last_reset_time s \<longrightarrow>
      (\<forall>i<MAX_NPROCESS. status (proc_set s i) \<noteq> PROC_UNUSED \<longrightarrow>
           queue_level (proc_set (mlfq_reset_level K s) i) = 0
         \<and> queue_time (proc_set (mlfq_reset_level K s) i) = 0)
      \<and> MLFQ_last_reset_time (mlfq_reset_level K s) = mtime s (mtime_reads s))
   \<and> (mtime s (mtime_reads s) - MLFQ_last_reset_time s < MLFQ_RESET_PERIOD \<longrightarrow>
        MLFQ_last_reset_time (mlfq_reset_level K s) = MLFQ_last_reset_time s
      \<and> (tty_input_empty s \<longrightarrow> proc_set (mlfq_reset_level K s) = proc_set s))
   \<and> (\<forall>i. status (proc_set (mlfq_reset_level K s) i) = status (proc_set s i))"
  by (auto simp: mlfq_reset_level_def mtime_get_def Let_def reset_queue_def not_le
      split: option.splits)

theorem mlfq_reset_level_periodic_witness:
  "queue_level (proc_set (mlfq_reset_level egos reset_due) 1) = 0
   \<and> queue_time (proc_set (mlfq_reset_level egos reset_due) 1) = 0
   \<and> MLFQ_last_reset_time (mlfq_reset_level egos reset_due) = 10000000
   \<and> MLFQ_last_reset_time (mlfq_reset_level egos first_call) = 0
   \<and> proc_set (mlfq_reset_level egos first_call) = proc_set first_call"
  using mlfq_reset_level_periodic [of reset_due egos]
    mlfq_reset_level_periodic [of first_call egos]
  by (simp add: reset_due_def first_call_def kstate_zero_def proc_zero_def
      MLFQ_RESET_PERIOD_def MAX_NPROCESS_def)

text \<open>
  The first call, made 5 ms after the clock started: the last reset time is still its
  initial 0, and the process at level 3 stays there.
\<close>

theorem mlfq_reset_level_first_call_counterexample:
  "MLFQ_last_reset_time first_call = 0 \<and> status (proc_set first_call 1) \<noteq> PROC_UNUSED
   \<and> queue_level (proc_set (mlfq_reset_level egos first_call) 1) = 3
   \<and> queue_time (proc_set (mlfq_reset_level egos first_call) 1) = 250
   \<and> MLFQ_last_reset_time (mlfq_reset_level egos first_call) = 0"
  unfolding mlfq_reset_level_def scan_slots
  by (simp add: first_call_def kstate_zero_def proc_zero_def mtime_get_def
      MLFQ_RESET_PERIOD_def)

section \<open>Message passing\<close>

text \<open>
  C7, evaluated where it fails. The sixteenth process gets the pid 16 and slot
  \<open>MAX_NPROCESS\<close> from \<^verbatim>\<open>proc_alloc\<close>; it is LOADING, not UNUSED, and it is not receiving.
  A send to it does not return with the sender left pending: \<^verbatim>\<open>proc_try_send\<close> scans the
  indices below \<open>MAX_NPROCESS\<close>, misses the receiver, and is fatal.
\<close>

theorem proc_try_send_last_slot_fatal:
  "(case proc_alloc send_to_last of
      Inl e \<Rightarrow> False
    | Inr (p, s) \<Rightarrow>
        p = receiver (syscall (proc_set s 1))
        \<and> pid (proc_set s MAX_NPROCESS) = p \<and> status (proc_set s MAX_NPROCESS) = PROC_LOADING
        \<and> proc_try_send egos 1 s = Inl (FATAL_unknown_receiver p))"
  unfolding proc_alloc_def proc_try_send_def yield_slots scan_slots
  by (simp add: send_to_last_def full15_def kstate_zero_def proc_zero_def mtime_get_def
      MAX_NPROCESS_def)




section \<open>The scheduler\<close>

text \<open>
  Claim C1, for every table as the code keeps it (\<open>table_ok\<close>) and every \<^verbatim>\<open>proc_yield\<close> whose
  loops end without FATAL. \<open>now\<close> is the time that \<^verbatim>\<open>proc_yield\<close> reads for its loops, \<open>d\<close>
  the \<^verbatim>\<open>next_idx\<close> and \<open>s5\<close> the state with which they end. If \<open>d\<close> is below \<open>MAX_NPROCESS\<close>,
  the PCB at \<open>d\<close> is dispatched: it is READY or RUNNABLE and not sleeping after the loops,
  it becomes the current process and RUNNING, the MMU is switched to its pid and the timer
  is reset. Otherwise the core goes idle (\<open>core_to_proc_idx\<close> is 0, the timer is reset, MIE
  is set, wfi is issued), and no PCB at an index in \<open>1..MAX_NPROCESS\<close> is READY or
  RUNNABLE and not sleeping, neither when the loops start (in \<open>s3\<close>) nor when they end. So the core goes idle only if no PCB can run, and
  whenever a PCB can run after the loops, one that can is dispatched.
\<close>

theorem proc_yield_idles_iff_nothing_to_run:
  assumes "table_ok s" and "yield_prepare K s = (now, s3)" and "yield_select K s = Inr (d, s5)"
  shows "(d < MAX_NPROCESS \<longrightarrow>
            proc_yield K s = Inr (yield_dispatch K d s5)
          \<and> 1 \<le> d \<and> awake now (proc_set s5 d)
          \<and> curr_proc_idx (yield_dispatch K d s5) = d
          \<and> status (proc_set (yield_dispatch K d s5) d) = PROC_RUNNING
          \<and> hal (yield_dispatch K d s5) =
              hal s5 @ [if pid (proc_set s5 d) \<ge> GPID_USER_START K
                        then SET_MPP_USER else SET_MPP_MACHINE,
                        MMU_SWITCH (pid (proc_set s5 d)), MMU_FLUSH_CACHE,
                        TIMER_RESET (core_in_kernel s5)])
       \<and> (\<not> d < MAX_NPROCESS \<longrightarrow>
            proc_yield K s = Inr (yield_idle s5)
          \<and> (\<forall>j. 1 \<le> j \<and> j \<le> MAX_NPROCESS \<longrightarrow>
                \<not> awake now (proc_set s3 j) \<and> \<not> awake now (proc_set s5 j))
          \<and> curr_proc_idx (yield_idle s5) = 0
          \<and> hal (yield_idle s5) = hal s5 @ [TIMER_RESET (core_in_kernel s5), SET_MIE, WFI])"
proof (cases "d < MAX_NPROCESS")
  case True
  from yield_select_facts(2) [OF assms(3,2) True]
  have a: "1 \<le> d" "awake now (proc_set s5 d)" by simp_all
  from yield_select_table(1) [OF assms] True a(2)
  have "find_pid s5 (pid (proc_set s5 d)) = Some d"
    by (auto simp: table_ok_iff awake_def schedulable_def)
  then have "status (proc_set (yield_dispatch K d s5) d) = PROC_RUNNING"
    by (simp add: status_yield_dispatch)
  with True a assms(3) show ?thesis
    by (simp add: proc_yield_def hal_yield_dispatch)
next
  case False
  from yield_select_facts(1) [OF assms(3,2)]
  have "awake now (proc_set s3 j) \<Longrightarrow> awake now (proc_set s5 j)" for j
    by (rule awake_scan_rel)
  with False yield_select_table(2) [OF assms] assms(3) show ?thesis
    by (auto simp: proc_yield_def)
qed

theorem proc_yield_idles_iff_nothing_to_run_witness:
  "proc_yield egos two_ready = Inr (yield_dispatch egos 7 (two_ready\<lparr>mtime_reads := 2\<rparr>))
   \<and> awake 5000 (proc_set two_ready 7)
   \<and> status (proc_set (yield_dispatch egos 7 (two_ready\<lparr>mtime_reads := 2\<rparr>)) 7) = PROC_RUNNING
   \<and> hal (yield_dispatch egos 7 (two_ready\<lparr>mtime_reads := 2\<rparr>))
       = [SET_MPP_USER, MMU_SWITCH 7, MMU_FLUSH_CACHE, TIMER_RESET 0]
   \<and> proc_yield egos after_sleep
       = Inr (yield_idle (asleep PROC_RUNNABLE 1100 3 [MMU_COPY_OUT 1 recv_done] 1))
   \<and> \<not> awake 1050 (proc_set (asleep PROC_RUNNABLE 1100 3 [MMU_COPY_OUT 1 recv_done] 1) 1)
   \<and> hal (yield_idle (asleep PROC_RUNNABLE 1100 3 [MMU_COPY_OUT 1 recv_done] 1))
       = [MMU_COPY_OUT 1 recv_done, TIMER_RESET 0, SET_MIE, WFI]"
proof -
  have a: "hal (two_ready\<lparr>mtime_reads := 2\<rparr>) = []"
    "pid (proc_set two_ready 7) = 7"
    "core_in_kernel (two_ready\<lparr>mtime_reads := 2\<rparr>) = 0" "GPID_USER_START egos = 5"
    "proc_set (two_ready\<lparr>mtime_reads := 2\<rparr>) = proc_set two_ready"
    by (simp_all add: two_ready_def kstate_zero_def proc_zero_def egos_def)
  have b: "hal (asleep PROC_RUNNABLE 1100 3 [MMU_COPY_OUT 1 recv_done] 1) = [MMU_COPY_OUT 1 recv_done]"
    "core_in_kernel (asleep PROC_RUNNABLE 1100 3 [MMU_COPY_OUT 1 recv_done] 1) = 0"
    "\<not> awake 1050 (sleeper PROC_RUNNABLE 1100)"
    by (simp_all add: asleep_def before_sleep_def kstate_zero_def awake_def sleeping_def)
  from proc_yield_idles_iff_nothing_to_run
      [OF table_ok_examples(1) prepare_two_ready yield_select_two_ready]
    proc_yield_idles_iff_nothing_to_run
      [OF table_ok_examples(2) prepare_after_sleep yield_select_after_sleep]
  show ?thesis
    by (simp add: MAX_NPROCESS_def a b del: One_nat_def)
qed




section \<open>Sleeping\<close>

text \<open>
  What one \<^verbatim>\<open>proc_yield\<close> that returns does to the PCB at an index \<open>j\<close> in
  \<open>1..MAX_NPROCESS\<close>. \<open>now\<close> is the time that \<^verbatim>\<open>proc_yield\<close> reads for its loops, and \<open>s3\<close>
  the state in which the first loop starts. If the PCB is sleeping at \<open>now\<close>, it is not the
  one dispatched and its \<open>wakeup_time\<close> stays. If it is PENDING_SYSCALL with a \<open>wakeup_time\<close>
  that is not 0 and not after \<open>now\<close>, then after the yield it is RUNNABLE, or RUNNING when it
  was dispatched at once; and its \<open>wakeup_time\<close> is 0 provided that it is still
  PENDING_SYSCALL when the first loop starts and no PCB at a lower index blocks in a
  receive.
\<close>

lemma sleeper_and_yield:
  assumes "proc_yield K s = Inr s'" and "yield_prepare K s = (now, s3)"
    and "1 \<le> j" and "j \<le> MAX_NPROCESS"
  shows "(sleeping now (proc_set s j) \<longrightarrow>
            curr_proc_idx s' \<noteq> j \<and> wakeup_time (proc_set s' j) = wakeup_time (proc_set s j))
       \<and> (status (proc_set s j) = PROC_PENDING_SYSCALL \<and> 0 < wakeup_time (proc_set s j)
            \<and> wakeup_time (proc_set s j) \<le> now \<longrightarrow>
              (status (proc_set s' j) = PROC_RUNNABLE \<or> status (proc_set s' j) = PROC_RUNNING)
            \<and> (status (proc_set s3 j) = PROC_PENDING_SYSCALL
                 \<and> (\<forall>k. 1 \<le> k \<and> k < j \<longrightarrow> \<not> recv_waiting (proc_set s3 k))
               \<longrightarrow> wakeup_time (proc_set s' j) = 0))"
proof -
  from assms(1) obtain d s5 where
    sel: "yield_select K s = Inr (d, s5)"
    and fin: "s' = (if d < MAX_NPROCESS then yield_dispatch K d s5 else yield_idle s5)"
    unfolding proc_yield_def by (auto split: sum.splits if_splits)
  note facts = yield_select_facts [OF sel assms(2)]
  note prep = yield_prepare_pcb [OF assms(2)]
  have w': "wakeup_time (proc_set s' j) = wakeup_time (proc_set s5 j)"
    by (simp add: fin yield_dispatch_pcb)
  have st': "status (proc_set s' j) = status (proc_set s5 j) \<or> status (proc_set s' j) = PROC_RUNNING"
    using yield_dispatch_pcb(2) [of K d s5 j] by (simp add: fin)
  have part1: "curr_proc_idx s' \<noteq> j \<and> wakeup_time (proc_set s' j) = wakeup_time (proc_set s j)"
    if sl: "sleeping now (proc_set s j)"
  proof -
    from sl prep(1) [of j] have sl3: "sleeping now (proc_set s3 j)"
      by (simp add: sleeping_def)
    with facts(1) have w5: "wakeup_time (proc_set s5 j) = wakeup_time (proc_set s3 j)"
      by (rule sleeping_scan_rel)
    with sl3 have "sleeping now (proc_set s5 j)" by (simp add: sleeping_def)
    then have "\<not> awake now (proc_set s5 j)" by (simp add: awake_def)
    with facts(2) have "d < MAX_NPROCESS \<Longrightarrow> d \<noteq> j" by blast
    with assms(3) have "curr_proc_idx s' \<noteq> j" by (auto simp: fin)
    with w' w5 prep(1) [of j] show ?thesis by simp
  qed
  have part2: "(status (proc_set s' j) = PROC_RUNNABLE \<or> status (proc_set s' j) = PROC_RUNNING)
            \<and> (status (proc_set s3 j) = PROC_PENDING_SYSCALL
                 \<and> (\<forall>k. 1 \<le> k \<and> k < j \<longrightarrow> \<not> recv_waiting (proc_set s3 k))
               \<longrightarrow> wakeup_time (proc_set s' j) = 0)"
    if p: "status (proc_set s j) = PROC_PENDING_SYSCALL" and w: "0 < wakeup_time (proc_set s j)"
      "wakeup_time (proc_set s j) \<le> now"
  proof
    from facts(1) have step: "pcb_step now (proc_set s3 j) (proc_set s5 j)"
      by (simp add: scan_rel_def)
    from facts(3) [OF assms(3,4)] have no: "\<not> overdue now (proc_set s5 j)" .
    from p prep(2) [of j] have "status (proc_set s3 j) = PROC_PENDING_SYSCALL
        \<or> status (proc_set s3 j) = PROC_RUNNABLE" by auto
    with step no w prep(1) [of j] have "status (proc_set s5 j) = PROC_RUNNABLE"
      unfolding pcb_step_def overdue_def by auto
    with st' show "status (proc_set s' j) = PROC_RUNNABLE \<or> status (proc_set s' j) = PROC_RUNNING"
      by auto
    show "status (proc_set s3 j) = PROC_PENDING_SYSCALL
                 \<and> (\<forall>k. 1 \<le> k \<and> k < j \<longrightarrow> \<not> recv_waiting (proc_set s3 k))
               \<longrightarrow> wakeup_time (proc_set s' j) = 0"
    proof
      assume h: "status (proc_set s3 j) = PROC_PENDING_SYSCALL
                 \<and> (\<forall>k. 1 \<le> k \<and> k < j \<longrightarrow> \<not> recv_waiting (proc_set s3 k))"
      from sel assms(2) obtain d1 s4 where
        fp: "first_pass K now [1..<Suc MAX_NPROCESS] MAX_NPROCESS MLFQ_LEVELS s3 = Inr (d1, s4)"
        and sp: "(d1 \<noteq> MAX_NPROCESS \<and> d = d1 \<and> s5 = s4)
         \<or> (d1 = MAX_NPROCESS
            \<and> second_pass K now [1..<Suc MAX_NPROCESS] MAX_NPROCESS s4 = Inr (d, s5))"
        by (rule yield_select_split)
      from h w prep(1) [of j] have od: "overdue now (proc_set s3 j)"
        by (simp add: overdue_def)
      from assms(3,4) have jin: "j \<in> set [1..<Suc MAX_NPROCESS]"
        by (simp add: in_yield_slots del: upt_Suc)
      from h have "\<forall>k\<in>set [1..<Suc MAX_NPROCESS]. k < j \<longrightarrow> \<not> recv_waiting (proc_set s3 k)"
        by (simp add: in_yield_slots del: upt_Suc)
      with fp sorted_yield_slots jin od have "wakeup_time (proc_set s4 j) = 0"
        by (rule first_pass_wakes)
      moreover from sp have "scan_rel now s4 s5" by (auto dest: second_pass_scan_rel)
      ultimately have "wakeup_time (proc_set s5 j) = 0"
        by (blast dest: wakeup_zero_scan_rel)
      with w' show "wakeup_time (proc_set s' j) = 0" by simp
    qed
  qed
  from part1 part2 show ?thesis by blast
qed

text \<open>
  Claim C9, on a process for which the code does not do what the claim says. Process 1 is
  RUNNING in slot 1, and the last system call it made is a receive that has completed. At
  time 1000 \<^verbatim>\<open>proc_sleep(1, 100)\<close> sets its \<open>wakeup_time\<close> to 1100 and its status to
  PENDING_SYSCALL. The yield at 1050 does not dispatch it, but its first loop runs
  \<^verbatim>\<open>proc_try_syscall\<close> on the sleeping PCB as on any PENDING_SYSCALL one, and
  \<^verbatim>\<open>proc_try_recv\<close> makes it RUNNABLE. The yield at 1200 is the first one at or after 1100:
  the wake-up test wants a PENDING_SYSCALL process, so the process is dispatched with its
  \<open>wakeup_time\<close> still 1100, where the claim says that it is cleared to 0.
\<close>

theorem proc_sleep_wakeup_time_not_cleared:
  "after_sleep = proc_sleep 1 100 before_sleep
   \<and> status (proc_set before_sleep 1) = PROC_RUNNING
   \<and> status (proc_set after_sleep 1) = PROC_PENDING_SYSCALL
   \<and> wakeup_time (proc_set after_sleep 1) = 1100
   \<and> \<not> isl (proc_yield egos after_sleep)
   \<and> fst (yield_prepare egos after_sleep) = 1050
   \<and> curr_proc_idx after_first_yield \<noteq> 1
   \<and> status (proc_set after_first_yield 1) = PROC_RUNNABLE
   \<and> \<not> isl (proc_yield egos after_first_yield)
   \<and> fst (yield_prepare egos after_first_yield) = 1200
   \<and> curr_proc_idx after_second_yield = 1
   \<and> wakeup_time (proc_set after_second_yield 1) = 1100"
proof -
  have "after_sleep = proc_sleep 1 100 before_sleep"
    by (simp only: after_sleep_def)
  moreover have "status (proc_set before_sleep 1) = PROC_RUNNING"
    by (simp add: before_sleep_def sleeper_def)
  moreover have "status (proc_set after_sleep 1) = PROC_PENDING_SYSCALL
    \<and> wakeup_time (proc_set after_sleep 1) = 1100
    \<and> \<not> isl (proc_yield egos after_sleep)
    \<and> fst (yield_prepare egos after_sleep) = 1050
    \<and> curr_proc_idx after_first_yield \<noteq> 1
    \<and> status (proc_set after_first_yield 1) = PROC_RUNNABLE
    \<and> \<not> isl (proc_yield egos after_first_yield)
    \<and> fst (yield_prepare egos after_first_yield) = 1200
    \<and> curr_proc_idx after_second_yield = 1
    \<and> wakeup_time (proc_set after_second_yield 1) = 1100"
    by (simp add: after_second_yield_def after_first_yield_def first_yield_asleep
        second_yield_asleep yield_dispatch_pcb prepare_asleep)
       (simp add: after_sleep_eq prepare_asleep curr_proc_idx_def)
  ultimately show ?thesis
    by (simp only: simp_thms)
qed

text \<open>
  The same retry on a process whose record has no type: the first yield after
  \<^verbatim>\<open>proc_sleep\<close> ends in the FATAL of \<^verbatim>\<open>proc_try_syscall\<close>.
\<close>

lemma proc_sleep_untyped_record_fatal:
  "status (proc_set (proc_sleep 1 100 never_called) 1) = PROC_PENDING_SYSCALL
   \<and> wakeup_time (proc_set (proc_sleep 1 100 never_called) 1) = 1100
   \<and> proc_yield egos (proc_sleep 1 100 never_called) = Inl FATAL_unknown_syscall"
proof -
  have s: "proc_sleep 1 100 never_called = never_called\<lparr>
      proc_set := (\<lambda>_. proc_zero)
        (1 := proc_zero\<lparr>pid := 1, status := PROC_PENDING_SYSCALL, wakeup_time := 1100\<rparr>),
      mtime_reads := 1\<rparr>"
    unfolding proc_sleep_def scan_slots
    by (simp add: never_called_def kstate_zero_def proc_zero_def mtime_get_def set_proc_def
        fun_eq_iff del: One_nat_def)
  have p: "yield_prepare egos (never_called\<lparr>
      proc_set := (\<lambda>_. proc_zero)
        (1 := proc_zero\<lparr>pid := 1, status := PROC_PENDING_SYSCALL, wakeup_time := 1100\<rparr>),
      mtime_reads := 1\<rparr>) = (1000, never_called\<lparr>
      proc_set := (\<lambda>_. proc_zero)
        (1 := proc_zero\<lparr>pid := 1, status := PROC_PENDING_SYSCALL, wakeup_time := 1100\<rparr>),
      mtime_reads := 3\<rparr>)"
    unfolding yield_prepare_def mlfq_reset_level_def
    by (simp add: never_called_def kstate_zero_def curr_status_def curr_proc_idx_def
        mtime_get_def MLFQ_RESET_PERIOD_def Let_def)
  have w: "wake_and_try egos 1000 1 (never_called\<lparr>
      proc_set := (\<lambda>_. proc_zero)
        (1 := proc_zero\<lparr>pid := 1, status := PROC_PENDING_SYSCALL, wakeup_time := 1100\<rparr>),
      mtime_reads := 3\<rparr>) = Inl FATAL_unknown_syscall"
    by (simp add: wake_and_try_def proc_try_syscall_def proc_zero_def del: One_nat_def)
  have f: "first_pass egos 1000 [1..<Suc MAX_NPROCESS] MAX_NPROCESS MLFQ_LEVELS (never_called\<lparr>
      proc_set := (\<lambda>_. proc_zero)
        (1 := proc_zero\<lparr>pid := 1, status := PROC_PENDING_SYSCALL, wakeup_time := 1100\<rparr>),
      mtime_reads := 3\<rparr>) = Inl FATAL_unknown_syscall"
    unfolding yield_slots by (subst first_pass.simps(2)) (simp only: w sum.case)
  show ?thesis
    unfolding s proc_yield_def yield_select_def Let_def p prod.case f sum.case
    by (simp add: proc_zero_def)
qed

end
